theory Spec2Isabelle
  imports Main "HOL-Library.Sublist" "HOL-Library.AList"
begin

chapter \<open>The model: the symbol table and the module loader\<close>

section \<open>Strings and plain objects used as dictionaries\<close>

text \<open>
  A TypeScript string is modelled as a \<open>string\<close>: the list of its code units, each
  below 256 (the Latin-1 range). \<open>s.startsWith(p)\<close> is \<open>prefix p s\<close>,
  \<open>s.includes('.')\<close> is membership of the character, \<open>a + b\<close> is \<open>a @ b\<close>, \<open>===\<close> is
  equality. A string is falsy exactly when it is empty.
\<close>

text \<open>
  \<open>s.split(c)\<close> for a one-character separator: the pieces between the separators,
  never an empty array (\<open>''.split('.')\<close> is \<open>['']\<close>).
\<close>

fun split_on :: "char \<Rightarrow> string \<Rightarrow> string list" where
  "split_on c [] = [[]]"
| "split_on c (x # xs) =
     (if x = c then [] # split_on c xs
      else (case split_on c xs of
              [] \<Rightarrow> [[x]]
            | w # ws \<Rightarrow> (x # w) # ws))"

text \<open>
  An object literal \<open>{}\<close> inherits from \<open>Object.prototype\<close>. Reading \<open>obj[k]\<close> for a
  key the object does not own therefore yields \<open>undefined\<close> only when \<open>k\<close> is not one
  of the inherited property names below; for those names the read yields an inherited
  (truthy) function or object.
\<close>

definition inherited_keys :: "string list" where
  "inherited_keys =
     [''constructor'', ''__proto__'', ''hasOwnProperty'', ''isPrototypeOf'',
      ''propertyIsEnumerable'', ''toLocaleString'', ''toString'', ''valueOf'',
      ''__defineGetter__'', ''__defineSetter__'', ''__lookupGetter__'',
      ''__lookupSetter__'']"

section \<open>The symbol table (class \<open>SymTable\<close>)\<close>

text \<open>
  The logger is an external collaborator; a call of \<open>log.warn\<close> is recorded as an
  event. The message builders \<open>WARN_NOT_FOUND_PACKAGE_NAME(namespace, implementation)\<close>
  and \<open>WARN_NO_GIR_FILE_FOUND_FOR_PACKAGE(packageName)\<close> are imported from
  \<open>./messages.js\<close>, outside the sources covered here; the event keeps their arguments.
  \<open>WARN_LOAD_IGNORED_DEPENDENCY dep name\<close> stands for the loader's message that the
  dependency \<open>dep\<close> of the module \<open>name\<close> is loaded although it is in the ignore list.
\<close>

datatype warning =
    WARN_NOT_FOUND_PACKAGE_NAME string string
  | WARN_NO_GIR_FILE_FOUND_FOR_PACKAGE string
  | WARN_LOAD_IGNORED_DEPENDENCY string string

record SymTable =
  modPackageName :: string
  modNamespace :: string

text \<open>
  \<open>split[0]\<close> of an empty array would be \<open>undefined\<close>, which \<open>+\<close> turns into the text
  \<open>undefined\<close>; \<open>split_on\<close> never returns an empty array, so that branch is dead.
\<close>

definition first_segment :: "string list \<Rightarrow> string" where
  "first_segment split = (case split of [] \<Rightarrow> ''undefined'' | s # _ \<Rightarrow> s)"

text \<open>
  \<open>getKey\<close>, branch by branch. \<open>Array.prototype.find\<close> is \<open>List.find\<close>: the first
  element satisfying the test, or \<open>undefined\<close>. \<open>!packageName\<close> holds for \<open>undefined\<close>
  and for the empty string. The result pairs the returned key (\<open>None\<close> for \<open>null\<close>)
  with the warnings emitted by the call.
\<close>

definition getKey :: "SymTable \<Rightarrow> string list \<Rightarrow> string \<Rightarrow> string option \<times> warning list" where
  "getKey this dependencies implementation =
     (if prefix (modPackageName this @ ''.'') implementation then
        (Some implementation, [])
      else if prefix (modNamespace this @ ''.'') implementation then
        (Some (modPackageName this @ ''.'' @ implementation), [])
      else if CHR ''.'' \<notin> set implementation then
        (Some (modPackageName this @ ''.'' @ modNamespace this @ ''.'' @ implementation), [])
      else
        (let split = split_on CHR ''.'' implementation;
             namespace = first_segment split;
             packageName = find (\<lambda>dependency. prefix (namespace @ ''-'') dependency) dependencies
         in case packageName of
              None \<Rightarrow> (None, [WARN_NOT_FOUND_PACKAGE_NAME namespace implementation])
            | Some p \<Rightarrow>
                if p = [] then (None, [WARN_NOT_FOUND_PACKAGE_NAME namespace implementation])
                else (Some (p @ ''.'' @ implementation), [])))"

text \<open>
  The static table \<open>SymTable.items\<close> is a plain object from keys to document elements.
  Elements are objects, hence truthy, and are kept abstract. Every key that \<open>getKey\<close>
  produces contains a dot (lemma \<open>getKey_has_dot\<close> below), so it is never an inherited
  property name and the table behaves as a finite map on the keys used here.
\<close>

type_synonym 'e items = "string \<rightharpoonup> 'e"

definition get :: "SymTable \<Rightarrow> 'e items \<Rightarrow> string list \<Rightarrow> string \<Rightarrow> 'e option \<times> warning list" where
  "get this items dependencies fullTypeName =
     (let (key, warns) = getKey this dependencies fullTypeName
      in case key of
           None \<Rightarrow> (None, warns)
         | Some k \<Rightarrow> if k = [] then (None, warns) else (items k, warns))"

definition set_sym :: "SymTable \<Rightarrow> 'e items \<Rightarrow> string list \<Rightarrow> string \<Rightarrow> 'e \<Rightarrow> 'e items \<times> warning list" where
  "set_sym this items dependencies fullTypeName GirElement =
     (let (key, warns) = getKey this dependencies fullTypeName
      in case key of
           None \<Rightarrow> (items, warns)
         | Some k \<Rightarrow> if k = [] then (items, warns) else (items(k \<mapsto> GirElement), warns))"

section \<open>The module loader (class \<open>ModuleLoader\<close>): transitive dependencies\<close>

text \<open>
  Everything that carries a \<open>packageName\<close> field (a \<open>Dependency\<close>, a \<open>GirModule\<close>, a
  \<open>GirModuleResolvedBy\<close>) extends one base record, so that \<open>packageName\<close> reads the same
  on all of them. The \<open>namespace\<close> and \<open>version\<close> of a \<open>Dependency\<close> are named
  \<open>dep_namespace\<close> and \<open>dep_version\<close>, because a grouped entry has a \<open>namespace\<close> too.
\<close>

record named =
  packageName :: string

record Dependency = named +
  dep_namespace :: string
  dep_version :: string

text \<open>
  \<open>modDependencyMap\<close> is a plain object from a package name to the \<open>Dependency\<close> array
  of that module: an association list, read with \<open>map_of\<close>. A name the object does not
  own reads as \<open>undefined\<close> or as an inherited function or object, none of which is
  iterable, so \<open>isIterable(deps)\<close> (imported from \<open>./utils.js\<close>) holds exactly for the
  owned entries, which are arrays.
\<close>

type_synonym DependencyMap = "(string \<times> Dependency list) list"

text \<open>
  The visited set \<open>result\<close> is a plain object \<open>{}\<close> whose keys all hold \<open>1\<close>; it is
  modelled by the list of its own keys in the order they were added.
  \<open>result[k]\<close> is truthy when \<open>k\<close> is an own key or an inherited property name.
\<close>

definition truthy_at :: "string list \<Rightarrow> string \<Rightarrow> bool" where
  "truthy_at result k = (k \<in> set result \<or> k \<in> set inherited_keys)"

text \<open>
  \<open>traverseDependencies\<close> and its \<open>for\<close> loop over \<open>deps\<close>; \<open>result\<close> is threaded
  through both, as the source mutates one shared object.
\<close>

function traverseDependencies :: "DependencyMap \<Rightarrow> string \<Rightarrow> string list \<Rightarrow> string list"
  and traverseDependencies_for :: "DependencyMap \<Rightarrow> Dependency list \<Rightarrow> string list \<Rightarrow> string list"
where
  "traverseDependencies m name result =
     (case map_of m name of
        None \<Rightarrow> result
      | Some deps \<Rightarrow> traverseDependencies_for m deps result)"
| "traverseDependencies_for m [] result = result"
| "traverseDependencies_for m (dep # deps) result =
     (if truthy_at result (packageName dep) then traverseDependencies_for m deps result
      else traverseDependencies_for m deps
             (traverseDependencies m (packageName dep) (result @ [packageName dep])))"
  by pat_completeness auto

text \<open>
  Termination: every recursive call either marks a name that was not marked before, and
  only finitely many names occur in the map and in the pending \<open>deps\<close>, or it moves
  on in the \<open>deps\<close> array.
\<close>

definition dep_names :: "DependencyMap \<Rightarrow> string set" where
  "dep_names m = (\<Union>(k, deps)\<in>set m. packageName ` set deps)"

lemma finite_dep_names: "finite (dep_names m)"
  by (auto simp: dep_names_def)

lemma map_of_dep_names: "map_of m name = Some deps \<Longrightarrow> packageName ` set deps \<subseteq> dep_names m"
  by (force simp: dep_names_def dest: map_of_SomeD)

lemma traverse_grows_partial:
  "traverseDependencies_traverseDependencies_for_dom (Inl (m, name, result)) \<Longrightarrow>
     set result \<subseteq> set (traverseDependencies m name result)"
  "traverseDependencies_traverseDependencies_for_dom (Inr (m, deps, result)) \<Longrightarrow>
     set result \<subseteq> set (traverseDependencies_for m deps result)"
proof (induction m name result and m deps result rule: traverseDependencies_traverseDependencies_for.pinduct)
  case (1 m name result)
  then show ?case
    by (auto simp: traverseDependencies.psimps split: option.splits)
next
  case (2 m result)
  then show ?case by (simp add: traverseDependencies_for.psimps)
next
  case (3 m dep deps result)
  then show ?case
    by (auto simp: traverseDependencies_for.psimps)
qed

definition todo :: "DependencyMap \<Rightarrow> Dependency list \<Rightarrow> string list \<Rightarrow> nat" where
  "todo m deps result = card ((dep_names m \<union> packageName ` set deps) - set result)"

lemma todo_mono:
  "packageName ` set deps' \<subseteq> dep_names m \<union> packageName ` set deps \<Longrightarrow> set result \<subseteq> set result' \<Longrightarrow>
   todo m deps' result' \<le> todo m deps result"
  unfolding todo_def
  by (intro card_mono) (auto simp: finite_dep_names)

lemma todo_less:
  assumes "packageName ` set deps' \<subseteq> dep_names m \<union> packageName ` set deps"
    and "set result \<subseteq> set result'" and "x \<in> set result'" and "x \<notin> set result"
    and "x \<in> dep_names m \<union> packageName ` set deps"
  shows "todo m deps' result' < todo m deps result"
  unfolding todo_def
  using assms by (intro psubset_card_mono) (auto simp: finite_dep_names)

lemma traverseDependencies_total:
  "\<forall>x. traverseDependencies_traverseDependencies_for_dom x"
proof (relation "measures
    [(\<lambda>x. case x of Inl (m, name, result) \<Rightarrow> todo m [] result
                   | Inr (m, deps, result) \<Rightarrow> todo m deps result),
     (\<lambda>x. case x of Inl _ \<Rightarrow> 1 | Inr _ \<Rightarrow> 0),
     (\<lambda>x. case x of Inl _ \<Rightarrow> 0 | Inr (m, deps, result) \<Rightarrow> length deps)]", goal_cases)
  case 1
  show ?case by simp
next
  case (2 m name result deps)
  then have "todo m deps result \<le> todo m [] result"
    by (intro todo_mono) (auto dest: map_of_dep_names)
  then show ?case by auto
next
  case (3 m dep deps result)
  have "todo m deps result \<le> todo m (dep # deps) result"
    by (intro todo_mono) auto
  then show ?case by auto
next
  case (4 m dep deps result)
  then have "packageName dep \<notin> set result" by (simp add: truthy_at_def)
  then have "todo m [] (result @ [packageName dep]) < todo m (dep # deps) result"
    by (intro todo_less [where x = "packageName dep"]) auto
  then show ?case by simp
next
  case (5 m dep deps result)
  from traverse_grows_partial(1) [OF 5(2)]
  have "todo m deps (traverseDependencies m (packageName dep) (result @ [packageName dep]))
        \<le> todo m (dep # deps) result"
    by (intro todo_mono) auto
  then show ?case by auto
qed

termination traverseDependencies
  by (rule traverseDependencies_total)

datatype ResolveType = BY_HAND | DEPENDENCE

record GirModule = named +
  dependencies :: "string list"
  transitiveDependencies :: "string list"

record GirModuleResolvedBy = named +
  module :: GirModule
  resolvedBy :: ResolveType

text \<open>
  \<open>Object.keys(obj)\<close> of a plain object, given its own keys in the order they were
  added: first the keys that are array indices (the canonical decimal form of an integer
  from \<open>0\<close> to \<open>4294967294\<close>), in ascending numeric order, then all other keys in the order
  they were added.
\<close>

definition index_value :: "string \<Rightarrow> nat" where
  "index_value s = fold (\<lambda>c n. 10 * n + (of_char c - 48)) s 0"

definition is_array_index :: "string \<Rightarrow> bool" where
  "is_array_index s =
     (s \<noteq> [] \<and> list_all (\<lambda>c. c \<in> set ''0123456789'') s
      \<and> (s = ''0'' \<or> hd s \<noteq> CHR ''0'') \<and> index_value s < 4294967295)"

definition object_keys :: "string list \<Rightarrow> string list" where
  "object_keys ks =
     sort_key index_value (filter is_array_index ks) @ filter (\<lambda>k. \<not> is_array_index k) ks"

text \<open>
  \<open>setTraverseDependenciesForModules\<close> stores \<open>Object.keys(result)\<close> in every module.
\<close>

definition setTraverseDependenciesForModules ::
  "DependencyMap \<Rightarrow> GirModuleResolvedBy list \<Rightarrow> GirModuleResolvedBy list" where
  "setTraverseDependenciesForModules m girModules' =
     map (\<lambda>girModule.
            girModule\<lparr>module := (module girModule)
              \<lparr>transitiveDependencies :=
                 object_keys (traverseDependencies m (packageName girModule) [])\<rparr>\<rparr>)
         girModules'"

text \<open>
  The dependency edges that the traversal follows: \<open>a\<close> declares \<open>b\<close> in its entry of the
  map, and \<open>b\<close> is not an inherited property name (such a name always reads as marked).
\<close>

definition depends_on :: "DependencyMap \<Rightarrow> (string \<times> string) set" where
  "depends_on m =
     {(a, b). \<exists>deps. map_of m a = Some deps \<and> b \<in> packageName ` set deps
                 \<and> b \<notin> set inherited_keys}"

text \<open>
  \<open>processed m before after\<close>: nothing was unmarked, and every name marked in between has
  all its dependencies marked.
\<close>

definition processed :: "DependencyMap \<Rightarrow> string set \<Rightarrow> string set \<Rightarrow> bool" where
  "processed m before after =
     (before \<subseteq> after \<and> (\<forall>a\<in>after - before. \<forall>b. (a, b) \<in> depends_on m \<longrightarrow> b \<in> after))"

section \<open>The module loader: grouping modules by namespace\<close>

text \<open>
  Exceptions are values: \<open>TypeError\<close> is what the engine throws when a property of
  \<open>undefined\<close> is read, \<open>Error msg\<close> is \<open>throw new Error(msg)\<close>.
\<close>

datatype error = TypeError | Error string

text \<open>
  \<open>String.prototype.toLowerCase\<close> on code units below 256: the letters \<open>A\<close> to \<open>Z\<close> (65 to
  90) and the capital letters of Latin-1 (192 to 222, without the multiplication sign
  215) are moved up by 32 to their small forms, which is setting the bit of value 32;
  every other code unit is left as it is. The general results on the grouping hold
  whatever \<open>toLowerCase\<close> does to a string.
\<close>

definition toLowerCase :: "string \<Rightarrow> string" where
  "toLowerCase s =
     map (\<lambda>c. let n = (of_char c :: nat)
              in if (65 \<le> n \<and> n \<le> 90) \<or> (192 \<le> n \<and> n \<le> 222 \<and> n \<noteq> 215)
                 then (case c of Char b0 b1 b2 b3 b4 b5 b6 b7 \<Rightarrow> Char b0 b1 b2 b3 b4 True b6 b7)
                 else c) s"

record GirModulesGrouped =
  namespace :: string
  modules :: "GirModuleResolvedBy list"
  hasConflict :: bool

text \<open>
  \<open>GirModulesGroupedMap\<close> is a plain object from a lower-cased namespace to its group:
  an association list of the own keys, in the order they were created.
\<close>

type_synonym GirModulesGroupedMap = "(string \<times> GirModulesGrouped) list"

text \<open>
  \<open>splitModuleName\<close> is imported from \<open>./utils.js\<close>, outside the sources covered
  here; it is a parameter of the model and returns the namespace and the version of a
  package name.

  The body of the \<open>for\<close> loop of \<open>groupGirFiles\<close>. \<open>girModulesGrouped[id]\<close> is falsy
  only when \<open>id\<close> is neither an own key nor an inherited property name. For an inherited
  name that is not an own key the \<open>else\<close> branch reads \<open>.modules\<close> of the inherited
  value, which is \<open>undefined\<close>, and \<open>.push\<close> on it throws a \<open>TypeError\<close>.
\<close>

definition groupGirFiles_body ::
  "(string \<Rightarrow> string \<times> string) \<Rightarrow> GirModulesGroupedMap \<Rightarrow> GirModuleResolvedBy \<Rightarrow> error + GirModulesGroupedMap" where
  "groupGirFiles_body splitModuleName girModulesGrouped resolveGirModule =
     (let namespace = fst (splitModuleName (packageName resolveGirModule));
          id = toLowerCase namespace
      in case map_of girModulesGrouped id of
           None \<Rightarrow>
             if id \<in> set inherited_keys then Inl TypeError
             else Inr (girModulesGrouped @
                    [(id, \<lparr>namespace = namespace, modules = [resolveGirModule], hasConflict = False\<rparr>)])
         | Some grp \<Rightarrow>
             Inr (AList.update id
                    (grp\<lparr>modules := modules grp @ [resolveGirModule], hasConflict := True\<rparr>)
                    girModulesGrouped))"

fun groupGirFiles_for ::
  "(string \<Rightarrow> string \<times> string) \<Rightarrow> GirModulesGroupedMap \<Rightarrow> GirModuleResolvedBy list \<Rightarrow> error + GirModulesGroupedMap" where
  "groupGirFiles_for splitModuleName girModulesGrouped [] = Inr girModulesGrouped"
| "groupGirFiles_for splitModuleName girModulesGrouped (resolveGirModule # rest) =
     (case groupGirFiles_body splitModuleName girModulesGrouped resolveGirModule of
        Inl e \<Rightarrow> Inl e
      | Inr girModulesGrouped' \<Rightarrow> groupGirFiles_for splitModuleName girModulesGrouped' rest)"

definition groupGirFiles ::
  "(string \<Rightarrow> string \<times> string) \<Rightarrow> GirModuleResolvedBy list \<Rightarrow> error + GirModulesGroupedMap" where
  "groupGirFiles splitModuleName resolveGirModules = groupGirFiles_for splitModuleName [] resolveGirModules"

text \<open>
  Modelled from the spec: \<open>splitModuleName\<close>, which is imported from \<open>./utils.js\<close>,
  outside the sources covered here. The specification gives a package name the form
  \<open><Namespace>-<Version>\<close> and derives namespace and version by splitting it; the split
  is taken at the first hyphen. It is used for concrete examples only.
\<close>

definition splitModuleName_spec :: "string \<Rightarrow> string \<times> string" where
  "splitModuleName_spec name =
     (takeWhile (\<lambda>c. c \<noteq> CHR ''-'') name, drop 1 (dropWhile (\<lambda>c. c \<noteq> CHR ''-'') name))"

text \<open>
  What a correct grouping of \<open>mods\<close> is: the keys are pairwise different and are exactly
  the lower-cased namespaces of the modules; the group under a key holds exactly the
  modules of that namespace, in input order; its flag says whether it holds two or more;
  its \<open>namespace\<close> is the namespace of its first module.
\<close>

definition group_id :: "(string \<Rightarrow> string \<times> string) \<Rightarrow> GirModuleResolvedBy \<Rightarrow> string" where
  "group_id splitModuleName g = toLowerCase (fst (splitModuleName (packageName g)))"

definition group_ok ::
  "(string \<Rightarrow> string \<times> string) \<Rightarrow> GirModuleResolvedBy list \<Rightarrow> string \<Rightarrow> GirModulesGrouped \<Rightarrow> bool" where
  "group_ok splitModuleName mods key grp =
     (modules grp = filter (\<lambda>g. group_id splitModuleName g = key) mods
      \<and> modules grp \<noteq> []
      \<and> hasConflict grp = (2 \<le> length (modules grp))
      \<and> namespace grp = fst (splitModuleName (packageName (hd (modules grp)))))"

definition grouped_of ::
  "(string \<Rightarrow> string \<times> string) \<Rightarrow> GirModuleResolvedBy list \<Rightarrow> GirModulesGroupedMap \<Rightarrow> bool" where
  "grouped_of splitModuleName mods r =
     (distinct (map fst r)
      \<and> fst ` set r = group_id splitModuleName ` set mods
      \<and> (\<forall>(key, grp)\<in>set r. group_ok splitModuleName mods key grp))"

section \<open>The module loader: resolving version conflicts\<close>

text \<open>
  A JavaScript \<open>Set\<close> is modelled by the list of its elements in insertion order,
  without repetitions. Module objects are compared by value; this agrees with the
  identity comparison of the source as long as different module objects differ in some
  field, which holds when package names are unique. An element of \<open>keep\<close> is \<open>Some\<close>
  module, or \<open>None\<close> for \<open>undefined\<close> (what \<open>modules[0]\<close> of an empty array is).
\<close>

definition set_add :: "'a \<Rightarrow> 'a list \<Rightarrow> 'a list" where
  "set_add x s = (if x \<in> set s then s else s @ [x])"

definition new_Set :: "'a list \<Rightarrow> 'a list" where
  "new_Set xs = fold set_add xs []"

text \<open>
  Modelled from the spec: \<open>union\<close>, which is imported from \<open>./utils.js\<close>, outside the
  sources covered here. The specification says that the kept modules of a group are
  added to \<open>keep\<close>: the result is a new \<open>Set\<close> holding the elements of the first
  argument followed by those of the second.
\<close>

definition union_set :: "'a list \<Rightarrow> 'a list \<Rightarrow> 'a list" where
  "union_set target source = fold set_add source target"

record AnswerVersion =
  selected :: "string list"
  unselected :: "string list"

record KeepIgnore =
  keep :: "GirModuleResolvedBy option list"
  ignore :: "string list"

definition findGirModuleByFullNames :: "GirModuleResolvedBy list \<Rightarrow> string list \<Rightarrow> GirModuleResolvedBy list" where
  "findGirModuleByFullNames girModules packageNames =
     filter (\<lambda>girModule. packageName girModule \<in> set packageNames) girModules"

text \<open>
  \<open>sortVersionsByAnswer\<close>. Its parameter \<open>selected\<close> is written \<open>selected'\<close> (and \<open>ignore\<close>
  is \<open>ignore'\<close> further down), since the record fields have these names.
\<close>

definition sortVersionsByAnswer :: "GirModulesGrouped \<Rightarrow> string list \<Rightarrow> error + KeepIgnore" where
  "sortVersionsByAnswer girModulesGrouped selected' =
     (if \<not> hasConflict girModulesGrouped then
        Inr \<lparr>keep = set_add (case modules girModulesGrouped of [] \<Rightarrow> None | g # _ \<Rightarrow> Some g) [],
             ignore = []\<rparr>
      else
        (let keepModules = findGirModuleByFullNames (modules girModulesGrouped) selected';
             girModulePackageNames = map packageName (modules girModulesGrouped)
         in if length keepModules \<le> 0 then Inl (Error ''Module not found!'')
            else
              (let toIgnore = filter (\<lambda>name. name \<notin> set selected') girModulePackageNames
               in Inr \<lparr>keep = fold set_add (map Some keepModules) [],
                       ignore = [] @ toIgnore\<rparr>)))"

text \<open>
  The prompter (\<open>inquirer.prompt\<close>) is an external collaborator. Its answers are the
  input of the model: a list of strings, consumed one per prompt in the order the
  prompts are issued. The empty string stands for a falsy answer. Informational log
  lines of the prompts are not modelled.
\<close>

definition generateModuleVersionQuestion_choices :: "GirModulesGrouped \<Rightarrow> string list" where
  "generateModuleVersionQuestion_choices girModuleGrouped =
     ''All'' # map packageName (modules girModuleGrouped)"

definition askForVersionsPrompt :: "GirModulesGrouped \<Rightarrow> string \<Rightarrow> error + AnswerVersion" where
  "askForVersionsPrompt girModulesGrouped answer =
     (let choices = generateModuleVersionQuestion_choices girModulesGrouped
      in if answer = [] then Inl (Error ''No valid answer!'')
         else if answer = ''All'' then
           Inr \<lparr>selected = filter (\<lambda>choice. choice \<noteq> ''All'') choices, unselected = []\<rparr>
         else
           Inr \<lparr>selected = [answer], unselected = filter (\<lambda>choice. choice \<noteq> answer) choices\<rparr>)"

definition findModulesDependOnPackage :: "GirModulesGroupedMap \<Rightarrow> string \<Rightarrow> GirModuleResolvedBy list" where
  "findModulesDependOnPackage girModulesGroupedMap name =
     fold (\<lambda>girModulesGrouped girModules.
             fold (\<lambda>girModuleResolvedBy girModules.
                     if packageName girModuleResolvedBy = name then girModules
                     else fold (\<lambda>dep girModules.
                                  if dep = name \<and> girModuleResolvedBy \<notin> set girModules
                                  then girModules @ [girModuleResolvedBy] else girModules)
                            (dependencies (module girModuleResolvedBy)) girModules)
                  (modules girModulesGrouped) girModules)
          (map snd girModulesGroupedMap) []"

definition findModulesDependOnPackages :: "GirModulesGroupedMap \<Rightarrow> string list \<Rightarrow> GirModuleResolvedBy list" where
  "findModulesDependOnPackages girModulesGroupedMap packageNames =
     fold (\<lambda>name girModules. girModules @ findModulesDependOnPackage girModulesGroupedMap name)
          packageNames []"

text \<open>
  A run of the interactive part returns a value, throws, or is left waiting for an
  answer that the given answers do not contain (\<open>Pending\<close>).
\<close>

datatype 'a run = Returns 'a | Throws error | Pending

text \<open>
  The \<open>while (goBack)\<close> loop: one round asks for the version, computes the modules
  that depend on the unselected versions and are not ignored yet, and asks whether to go
  on. It reads \<open>ignore\<close> and does not touch \<open>keep\<close> or \<open>ignore\<close>. \<open>askIgnoreDepsPrompt\<close>
  returns the prompter's answer as it is.
\<close>

fun version_loop ::
  "GirModulesGroupedMap \<Rightarrow> string list \<Rightarrow> GirModulesGrouped \<Rightarrow> string list
   \<Rightarrow> (AnswerVersion \<times> string \<times> GirModuleResolvedBy list \<times> string list) run" where
  "version_loop girModulesGroupedMap ignore' girModulesGrouped [] = Pending"
| "version_loop girModulesGroupedMap ignore' girModulesGrouped [a] =
     (case askForVersionsPrompt girModulesGrouped a of
        Inl e \<Rightarrow> Throws e
      | Inr versionAnswer \<Rightarrow> Pending)"
| "version_loop girModulesGroupedMap ignore' girModulesGrouped (a # b # answers) =
     (case askForVersionsPrompt girModulesGrouped a of
        Inl e \<Rightarrow> Throws e
      | Inr versionAnswer \<Rightarrow>
          (let wouldIgnoreDeps =
                 filter (\<lambda>dep. packageName dep \<notin> set ignore')
                   (findModulesDependOnPackages girModulesGroupedMap (unselected versionAnswer));
               ignoreDepsAnswer = b
           in if ignoreDepsAnswer = ''Go back''
              then version_loop girModulesGroupedMap ignore' girModulesGrouped answers
              else Returns (versionAnswer, ignoreDepsAnswer, wouldIgnoreDeps, answers)))"

text \<open>
  The \<open>for\<close> loop of \<open>askForEachConflictVersionsPrompt\<close> over
  \<open>Object.values(girModulesGroupedMap)\<close>. The loop body overwrites \<open>modules\<close> and
  \<open>hasConflict\<close> of the group it visits, and \<open>findModulesDependOnPackages\<close> reads the
  whole map; so the map is carried as the groups already visited (updated), the current
  one and the ones to come.
\<close>

record resolver_state =
  st_keep :: "GirModuleResolvedBy option list"
  st_ignore :: "string list"
  st_answers :: "string list"

fun askForEach_for ::
  "GirModulesGroupedMap \<Rightarrow> resolver_state \<Rightarrow> GirModulesGroupedMap
   \<Rightarrow> (GirModulesGroupedMap \<times> resolver_state) run" where
  "askForEach_for visited st [] = Returns (visited, st)"
| "askForEach_for visited st ((key, girModulesGrouped) # rest) =
     (let filtered = filter (\<lambda>girGroup. packageName girGroup \<notin> set (st_ignore st))
                       (modules girModulesGrouped);
          grp = girModulesGrouped\<lparr>modules := filtered, hasConflict := (2 \<le> length filtered)\<rparr>;
          girModulesGroupedMap = visited @ (key, grp) # rest
      in if length (modules grp) \<le> 0 then askForEach_for (visited @ [(key, grp)]) st rest
         else if \<not> hasConflict grp then
           askForEach_for (visited @ [(key, grp)])
             (st\<lparr>st_keep := union_set (st_keep st) (map Some (modules grp))\<rparr>) rest
         else
           (case version_loop girModulesGroupedMap (st_ignore st) grp (st_answers st) of
              Pending \<Rightarrow> Pending
            | Throws e \<Rightarrow> Throws e
            | Returns (versionAnswer, ignoreDepsAnswer, wouldIgnoreDeps, answers) \<Rightarrow>
                (let ignore1 = (if ignoreDepsAnswer = ''Yes''
                                then st_ignore st @ map packageName wouldIgnoreDeps
                                else st_ignore st)
                 in case sortVersionsByAnswer grp (selected versionAnswer) of
                      Inl e \<Rightarrow> Throws e
                    | Inr unionMe \<Rightarrow>
                        askForEach_for (visited @ [(key, grp)])
                          \<lparr>st_keep = union_set (st_keep st) (keep unionMe),
                            st_ignore = ignore1 @ ignore unionMe,
                            st_answers = answers\<rparr> rest)))"

text \<open>
  After the loop, a non-empty \<open>ignore\<close> is reported and \<open>askAddToIgnoreToConfigPrompt\<close>
  consumes one more answer; \<open>Yes\<close> hands the list to the configuration store.
\<close>

record resolver_result =
  res_keep :: "GirModuleResolvedBy option list"
  res_ignore :: "string list"
  res_grouped :: GirModulesGroupedMap
  res_addedToConfig :: "string list option"
  res_answers :: "string list"

definition askForEachConflictVersionsPrompt ::
  "GirModulesGroupedMap \<Rightarrow> string list \<Rightarrow> string list \<Rightarrow> resolver_result run" where
  "askForEachConflictVersionsPrompt girModulesGroupedMap ignore' answers =
     (case askForEach_for [] \<lparr>st_keep = [], st_ignore = ignore', st_answers = answers\<rparr>
             girModulesGroupedMap of
        Pending \<Rightarrow> Pending
      | Throws e \<Rightarrow> Throws e
      | Returns (grouped, st) \<Rightarrow>
          if 0 < length (st_ignore st) then
            (case st_answers st of
               [] \<Rightarrow> Pending
             | a # answers' \<Rightarrow>
                 Returns \<lparr>res_keep = st_keep st, res_ignore = st_ignore st, res_grouped = grouped,
                          res_addedToConfig = (if a = ''Yes'' then Some (st_ignore st) else None),
                          res_answers = answers'\<rparr>)
          else
            Returns \<lparr>res_keep = st_keep st, res_ignore = st_ignore st, res_grouped = grouped,
                     res_addedToConfig = None, res_answers = st_answers st\<rparr>)"

section \<open>The module loader: loading modules and their dependencies\<close>

text \<open>
  The state the loader works on: the dependency map of the \<open>ModuleLoader\<close> object, the
  array \<open>girModules\<close> and the set \<open>failedGirModules\<close> (both passed by reference through
  every recursive call), and the warnings emitted so far.
\<close>

record loader =
  modDependencyMap :: DependencyMap
  girModules :: "GirModuleResolvedBy list"
  failedGirModules :: "string list"
  warned :: "warning list"

text \<open>
  \<open>extendDependencyMapByGirModule\<close>: the entry is stored under the package name, or under
  \<open>-\<close> when the package name is empty. The helper \<open>map\<close> of \<open>./utils.js\<close> is read as
  the mapping of a function over an array.
\<close>

definition extendDependencyMapByGirModule ::
  "(string \<Rightarrow> string \<times> string) \<Rightarrow> DependencyMap \<Rightarrow> GirModule \<Rightarrow> DependencyMap" where
  "extendDependencyMapByGirModule splitModuleName m girModule =
     AList.update (if packageName girModule = [] then ''-'' else packageName girModule)
       (map (\<lambda>name. \<lparr>packageName = name,
                       dep_namespace = fst (splitModuleName name),
                       dep_version = snd (splitModuleName name)\<rparr>)
            (dependencies girModule))
       m"

text \<open>
  The file system and the parser are external. \<open>gir name\<close> is the module parsed from the
  document found for \<open>name\<close> (by \<open>findFileInDirs\<close>), or \<open>None\<close> when no document is
  found, which is when \<open>loadAndCreateGirModule\<close> returns \<open>null\<close>. The documents do not
  change during a run.
\<close>

definition loadAndCreateGirModule ::
  "(string \<Rightarrow> string \<times> string) \<Rightarrow> (string \<Rightarrow> GirModule option) \<Rightarrow> loader \<Rightarrow> string
   \<Rightarrow> GirModule option \<times> loader" where
  "loadAndCreateGirModule splitModuleName gir st name =
     (case gir name of
        None \<Rightarrow> (None, st)
      | Some girModule \<Rightarrow>
          (Some girModule,
           st\<lparr>modDependencyMap :=
                extendDependencyMapByGirModule splitModuleName (modDependencyMap st) girModule\<rparr>))"

definition existsGirModules :: "GirModuleResolvedBy list \<Rightarrow> string list \<Rightarrow> bool" where
  "existsGirModules girModules' packageNames =
     (0 < length (findGirModuleByFullNames girModules' packageNames))"

text \<open>
  \<open>girToLoad.shift() || 'unknown'\<close>: a falsy (empty) name is replaced.
\<close>

definition shifted_name :: "string \<Rightarrow> string" where
  "shifted_name x = (if x = [] then ''unknown'' else x)"

text \<open>
  The \<open>while\<close> loop of \<open>loadGirModules\<close> over the copy \<open>girToLoad\<close>, with the flag
  \<open>newModuleFound\<close>. The \<open>throw\<close> for a falsy name is kept as the source has it.
\<close>

fun loadGirModules_while ::
  "(string \<Rightarrow> string \<times> string) \<Rightarrow> (string \<Rightarrow> GirModule option) \<Rightarrow> ResolveType
   \<Rightarrow> string list \<Rightarrow> loader \<Rightarrow> bool \<Rightarrow> error + loader \<times> bool" where
  "loadGirModules_while splitModuleName gir resolvedBy' [] st newModuleFound =
     Inr (st, newModuleFound)"
| "loadGirModules_while splitModuleName gir resolvedBy' (x # girToLoad) st newModuleFound =
     (let name = shifted_name x
      in if name = [] then
           Inl (Error (''Module name '' @ [CHR 0x27] @ name @ '' '' @ [CHR 0x27] @ ''not found!''))
         else if \<not> existsGirModules (girModules st) [name] then
           (case loadAndCreateGirModule splitModuleName gir st name of
              (None, st1) \<Rightarrow>
                if name \<notin> set (failedGirModules st1) then
                  loadGirModules_while splitModuleName gir resolvedBy' girToLoad
                    (st1\<lparr>warned := warned st1 @ [WARN_NO_GIR_FILE_FOUND_FOR_PACKAGE name],
                         failedGirModules := failedGirModules st1 @ [name]\<rparr>)
                    newModuleFound
                else
                  loadGirModules_while splitModuleName gir resolvedBy' girToLoad st1 newModuleFound
            | (Some girModule, st1) \<Rightarrow>
                if packageName girModule \<noteq> [] then
                  loadGirModules_while splitModuleName gir resolvedBy' girToLoad
                    (st1\<lparr>girModules := girModules st1 @
                           [\<lparr>packageName = packageName girModule, module = girModule,
                             resolvedBy = resolvedBy'\<rparr>]\<rparr>)
                    True
                else
                  loadGirModules_while splitModuleName gir resolvedBy' girToLoad st1 newModuleFound)
         else
           loadGirModules_while splitModuleName gir resolvedBy' girToLoad st newModuleFound)"

text \<open>
  \<open>loadGirModules\<close> calls itself from a \<open>for\<close> loop over the array \<open>girModules\<close>, which
  grows while the loop runs (the loop reads the current length at every step). Whether
  this ends depends on the documents, so both functions take fuel: \<open>None\<close> means that the
  fuel did not suffice. The result of the recursive call is not used by the source; the
  shared arrays carry its effect, here the returned state.
\<close>

fun loadGirModules ::
  "nat \<Rightarrow> (string \<Rightarrow> string \<times> string) \<Rightarrow> (string \<Rightarrow> GirModule option) \<Rightarrow> string list
   \<Rightarrow> string list \<Rightarrow> ResolveType \<Rightarrow> loader \<Rightarrow> (error + loader) option"
  and loadGirModules_for ::
  "nat \<Rightarrow> (string \<Rightarrow> string \<times> string) \<Rightarrow> (string \<Rightarrow> GirModule option) \<Rightarrow> string list
   \<Rightarrow> nat \<Rightarrow> loader \<Rightarrow> (error + loader) option"
where
  "loadGirModules 0 splitModuleName gir girModulesToRead ignoreDependencies resolvedBy' st = None"
| "loadGirModules (Suc fuel) splitModuleName gir girModulesToRead ignoreDependencies resolvedBy' st =
     (case loadGirModules_while splitModuleName gir resolvedBy' girModulesToRead st False of
        Inl e \<Rightarrow> Some (Inl e)
      | Inr (st1, newModuleFound) \<Rightarrow>
          if \<not> newModuleFound then Some (Inr st1)
          else loadGirModules_for fuel splitModuleName gir ignoreDependencies 0
                 (st1\<lparr>girModules :=
                        setTraverseDependenciesForModules (modDependencyMap st1) (girModules st1)\<rparr>))"
| "loadGirModules_for 0 splitModuleName gir ignoreDependencies i st = None"
| "loadGirModules_for (Suc fuel) splitModuleName gir ignoreDependencies i st =
     (if i < length (girModules st) then
        (let girModule = girModules st ! i;
             transitiveDependencies' = transitiveDependencies (module girModule)
         in if 0 < length transitiveDependencies' then
              (let st1 = st\<lparr>warned := warned st @
                             map (\<lambda>transitiveDependency.
                                    WARN_LOAD_IGNORED_DEPENDENCY transitiveDependency (packageName girModule))
                               (filter (\<lambda>transitiveDependency.
                                          transitiveDependency \<in> set ignoreDependencies)
                                  transitiveDependencies')\<rparr>
               in case loadGirModules fuel splitModuleName gir transitiveDependencies'
                         ignoreDependencies DEPENDENCE st1 of
                    None \<Rightarrow> None
                  | Some (Inl e) \<Rightarrow> Some (Inl e)
                  | Some (Inr st2) \<Rightarrow>
                      loadGirModules_for fuel splitModuleName gir ignoreDependencies (Suc i) st2)
            else loadGirModules_for fuel splitModuleName gir ignoreDependencies (Suc i) st)
      else Some (Inr st))"

section \<open>The module loader: what is recorded about missing documents\<close>

text \<open>The names for which a missing-file warning was emitted, in order.\<close>

fun missing_names :: "warning list \<Rightarrow> string list" where
  "missing_names [] = []"
| "missing_names (WARN_NO_GIR_FILE_FOUND_FOR_PACKAGE name # ws) = name # missing_names ws"
| "missing_names (w # ws) = missing_names ws"

text \<open>
  \<open>records_new st st'\<close>: from \<open>st\<close> to \<open>st'\<close> the failed set grew by names that are new
  and pairwise different, exactly these names were warned about, once each and in the
  same order, and no loaded module was lost.
\<close>

definition records_new :: "loader \<Rightarrow> loader \<Rightarrow> bool" where
  "records_new st st' =
     (let new = drop (length (failedGirModules st)) (failedGirModules st')
      in failedGirModules st' = failedGirModules st @ new
         \<and> distinct new
         \<and> set new \<inter> set (failedGirModules st) = {}
         \<and> missing_names (warned st') = missing_names (warned st) @ new
         \<and> packageName ` set (girModules st) \<subseteq> packageName ` set (girModules st'))"

text \<open>
  Every requested name without a document, and not loaded, is in the failed set.
\<close>

definition missing_recorded ::
  "(string \<Rightarrow> GirModule option) \<Rightarrow> string list \<Rightarrow> loader \<Rightarrow> bool" where
  "missing_recorded gir girModulesToRead st' =
     (\<forall>x\<in>set girModulesToRead.
        gir (shifted_name x) = None \<and> \<not> existsGirModules (girModules st') [shifted_name x]
        \<longrightarrow> shifted_name x \<in> set (failedGirModules st'))"

text \<open>The state of a fresh \<open>ModuleLoader\<close> and the default arguments of the first call.\<close>

definition new_loader :: loader where
  "new_loader = \<lparr>modDependencyMap = [], girModules = [], failedGirModules = [], warned = []\<rparr>"

text \<open>
  Convergence needs two facts about the documents: finitely many names have a document,
  and the document found under a name describes the package of that name. The loaded
  modules then have pairwise different names, all of which have a document.
\<close>

definition consistent_docs :: "(string \<Rightarrow> GirModule option) \<Rightarrow> bool" where
  "consistent_docs gir = (finite (dom gir) \<and> (\<forall>n g. gir n = Some g \<longrightarrow> packageName g = n))"

definition loaded_ok :: "(string \<Rightarrow> GirModule option) \<Rightarrow> loader \<Rightarrow> bool" where
  "loaded_ok gir st =
     (distinct (map packageName (girModules st)) \<and> packageName ` set (girModules st) \<subseteq> dom gir)"

text \<open>
  What a run is asked for. \<open>requires gir\<close> relates a name that has a document to every
  name this document declares as a dependency, and \<open>required gir girModulesToRead\<close> holds
  the requested names and everything they require, directly or through any number of
  documents. Names are taken as the \<open>while\<close> loop reads them (an empty name reads as
  \<open>unknown\<close>).
\<close>

definition requires :: "(string \<Rightarrow> GirModule option) \<Rightarrow> (string \<times> string) set" where
  "requires gir =
     {(a, b). \<exists>g d. gir a = Some g \<and> d \<in> set (dependencies g) \<and> b = shifted_name d}"

definition required :: "(string \<Rightarrow> GirModule option) \<Rightarrow> string list \<Rightarrow> string set" where
  "required gir girModulesToRead = (requires gir)\<^sup>* `` (shifted_name ` set girModulesToRead)"

text \<open>
  No document declares a dependency named like an inherited property of a plain object
  (\<open>traverseDependencies\<close> reads such a name as marked already and never collects it). A
  dependency name is a namespace, a hyphen and a version, and no inherited property name
  holds a hyphen.
\<close>

definition plain_dependencies :: "(string \<Rightarrow> GirModule option) \<Rightarrow> bool" where
  "plain_dependencies gir =
     (\<forall>n g. gir n = Some g \<longrightarrow> (\<forall>d\<in>set (dependencies g). d \<notin> set inherited_keys))"

text \<open>
  The invariants of the loader. A loaded module is identified by its name and its declared
  dependencies (\<open>mod_key\<close>), which no pass changes. A name is \<open>handled\<close> when it is loaded
  or in the failed set. From \<open>st\<close> to \<open>st'\<close> the loader \<open>grows\<close>: the array of modules is
  extended at its end and the failed set is not reduced. \<open>closed_from i st\<close>: every
  dependency of every module from index \<open>i\<close> on is handled.
\<close>

definition mod_key :: "GirModuleResolvedBy \<Rightarrow> string \<times> string list" where
  "mod_key g = (packageName g, dependencies (module g))"

definition handled :: "loader \<Rightarrow> string \<Rightarrow> bool" where
  "handled st n = (n \<in> packageName ` set (girModules st) \<or> n \<in> set (failedGirModules st))"

definition grows :: "loader \<Rightarrow> loader \<Rightarrow> bool" where
  "grows st st' =
     (prefix (map mod_key (girModules st)) (map mod_key (girModules st'))
      \<and> set (failedGirModules st) \<subseteq> set (failedGirModules st'))"

definition deps_handled :: "loader \<Rightarrow> string \<times> string list \<Rightarrow> bool" where
  "deps_handled st k =
     (\<forall>d\<in>set (snd k). d \<notin> set inherited_keys \<longrightarrow> handled st (shifted_name d))"

definition closed_from :: "nat \<Rightarrow> loader \<Rightarrow> bool" where
  "closed_from i st = (\<forall>k\<in>set (drop i (map mod_key (girModules st))). deps_handled st k)"

text \<open>
  \<open>sound_loader gir st\<close>: every loaded module carries the dependencies of the document of
  its name, the dependency map holds these dependencies under that name, and every name
  in the failed set has no document. \<open>trans_ok st\<close>: the transitive dependencies stored in
  a module include its declared dependencies, those named like an inherited property
  apart.
\<close>

definition sound_loader :: "(string \<Rightarrow> GirModule option) \<Rightarrow> loader \<Rightarrow> bool" where
  "sound_loader gir st =
     ((\<forall>g\<in>set (girModules st).
         \<exists>m. gir (packageName g) = Some m \<and> dependencies m = dependencies (module g))
      \<and> (\<forall>g\<in>set (girModules st).
           \<exists>deps. map_of (modDependencyMap st) (packageName g) = Some deps
                  \<and> map packageName deps = dependencies (module g))
      \<and> (\<forall>n\<in>set (failedGirModules st). gir n = None))"

definition trans_ok :: "loader \<Rightarrow> bool" where
  "trans_ok st =
     (\<forall>g\<in>set (girModules st). \<forall>d\<in>set (dependencies (module g)).
        d \<notin> set inherited_keys \<longrightarrow> d \<in> set (transitiveDependencies (module g)))"

chapter \<open>Properties\<close>

section \<open>Properties of the symbol table\<close>

lemma split_on_not_Nil: "split_on c s \<noteq> []"
  by (induction s) (auto split: list.splits)

lemma first_segment_split_on:
  "first_segment (split_on c s) = takeWhile (\<lambda>x. x \<noteq> c) s"
proof (induction s)
  case Nil
  show ?case by (simp add: first_segment_def)
next
  case (Cons x xs)
  then show ?case
    using split_on_not_Nil [of c xs]
    by (auto simp: first_segment_def split: list.splits)
qed

lemma find_first_match:
  "(\<forall>x\<in>set xs. \<not> P x) \<Longrightarrow> P d \<Longrightarrow> find P (xs @ d # ys) = Some d"
  by (induction xs) auto

lemma find_no_match: "(\<forall>x\<in>set xs. \<not> P x) \<Longrightarrow> find P xs = None"
  by (induction xs) auto

lemma find_prefix_nonempty:
  "find (\<lambda>d. prefix (n @ ''-'') d) deps = Some p \<Longrightarrow> p \<noteq> []"
  by (auto simp: find_Some_iff)

lemma getKey_foreign:
  assumes "\<not> prefix (modPackageName this @ ''.'') ref"
    and "\<not> prefix (modNamespace this @ ''.'') ref"
    and "CHR ''.'' \<in> set ref"
  shows "getKey this deps ref =
     (case find (\<lambda>d. prefix (takeWhile (\<lambda>c. c \<noteq> CHR ''.'') ref @ ''-'') d) deps of
        None \<Rightarrow> (None, [WARN_NOT_FOUND_PACKAGE_NAME (takeWhile (\<lambda>c. c \<noteq> CHR ''.'') ref) ref])
      | Some p \<Rightarrow> (Some (p @ ''.'' @ ref), []))"
proof (cases "find (\<lambda>d. prefix (takeWhile (\<lambda>c. c \<noteq> CHR ''.'') ref @ ''-'') d) deps")
  case None
  with assms show ?thesis
    by (simp add: getKey_def first_segment_split_on)
next
  case (Some p)
  then have "p \<noteq> []" by (rule find_prefix_nonempty)
  with assms Some show ?thesis
    by (simp add: getKey_def first_segment_split_on)
qed

lemma getKey_has_dot:
  assumes "getKey this deps ref = (Some k, w)"
  shows "CHR ''.'' \<in> set k"
proof -
  have "prefix (p @ ''.'') r \<Longrightarrow> CHR ''.'' \<in> set r" for p r :: string
    by (auto simp: prefix_def)
  with assms show ?thesis
    by (auto simp: getKey_def Let_def split: if_splits option.splits)
qed

lemma getKey_not_inherited:
  assumes "getKey this deps ref = (Some k, w)"
  shows "k \<notin> set inherited_keys" and "k \<noteq> []"
  using getKey_has_dot [OF assms] by (auto simp: inherited_keys_def)

text \<open>
  Claim C2. \<open>getKey\<close> follows the four-step, first-match resolution order: a reference
  that starts with the owner's package name and a dot is returned unchanged; otherwise
  one that starts with the owner's namespace and a dot gets the package name prefixed;
  otherwise one without a dot gets package name and namespace prefixed; otherwise the
  segment before the first dot is the foreign namespace, and the result is built from
  the first dependency that starts with that namespace and a hyphen, or is \<open>null\<close>
  together with one warning naming the namespace when no dependency does.
\<close>

theorem getKey_resolution_order:
  fixes this :: SymTable and deps :: "string list" and ref :: string
  shows
  "(prefix (modPackageName this @ ''.'') ref \<longrightarrow>
      getKey this deps ref = (Some ref, []))
   \<and> (\<not> prefix (modPackageName this @ ''.'') ref \<and> prefix (modNamespace this @ ''.'') ref \<longrightarrow>
      getKey this deps ref = (Some (modPackageName this @ ''.'' @ ref), []))
   \<and> (\<not> prefix (modPackageName this @ ''.'') ref \<and> \<not> prefix (modNamespace this @ ''.'') ref
        \<and> CHR ''.'' \<notin> set ref \<longrightarrow>
      getKey this deps ref =
        (Some (modPackageName this @ ''.'' @ modNamespace this @ ''.'' @ ref), []))
   \<and> (\<not> prefix (modPackageName this @ ''.'') ref \<and> \<not> prefix (modNamespace this @ ''.'') ref
        \<and> CHR ''.'' \<in> set ref \<longrightarrow>
      (\<forall>foreign before d after.
         foreign = takeWhile (\<lambda>c. c \<noteq> CHR ''.'') ref \<longrightarrow>
         ((\<forall>x\<in>set deps. \<not> prefix (foreign @ ''-'') x) \<longrightarrow>
            getKey this deps ref = (None, [WARN_NOT_FOUND_PACKAGE_NAME foreign ref]))
         \<and> (deps = before @ d # after \<and> (\<forall>x\<in>set before. \<not> prefix (foreign @ ''-'') x)
              \<and> prefix (foreign @ ''-'') d \<longrightarrow>
            getKey this deps ref = (Some (d @ ''.'' @ ref), []))))"
proof (intro conjI impI allI)
  assume "prefix (modPackageName this @ ''.'') ref"
  then show "getKey this deps ref = (Some ref, [])"
    by (simp add: getKey_def)
next
  assume "\<not> prefix (modPackageName this @ ''.'') ref \<and> prefix (modNamespace this @ ''.'') ref"
  then show "getKey this deps ref = (Some (modPackageName this @ ''.'' @ ref), [])"
    by (simp add: getKey_def)
next
  assume "\<not> prefix (modPackageName this @ ''.'') ref \<and> \<not> prefix (modNamespace this @ ''.'') ref
        \<and> CHR ''.'' \<notin> set ref"
  then show "getKey this deps ref =
        (Some (modPackageName this @ ''.'' @ modNamespace this @ ''.'' @ ref), [])"
    by (simp add: getKey_def)
next
  fix foreign :: string and before d after
  assume far: "\<not> prefix (modPackageName this @ ''.'') ref \<and> \<not> prefix (modNamespace this @ ''.'') ref
        \<and> CHR ''.'' \<in> set ref"
    and f: "foreign = takeWhile (\<lambda>c. c \<noteq> CHR ''.'') ref"
    and none: "\<forall>x\<in>set deps. \<not> prefix (foreign @ ''-'') x"
  from none have "find (\<lambda>d. prefix (foreign @ ''-'') d) deps = None"
    by (rule find_no_match)
  with far f show "getKey this deps ref = (None, [WARN_NOT_FOUND_PACKAGE_NAME foreign ref])"
    by (simp add: getKey_foreign)
next
  fix foreign :: string and before d after
  assume far: "\<not> prefix (modPackageName this @ ''.'') ref \<and> \<not> prefix (modNamespace this @ ''.'') ref
        \<and> CHR ''.'' \<in> set ref"
    and f: "foreign = takeWhile (\<lambda>c. c \<noteq> CHR ''.'') ref"
    and some: "deps = before @ d # after \<and> (\<forall>x\<in>set before. \<not> prefix (foreign @ ''-'') x)
              \<and> prefix (foreign @ ''-'') d"
  from some have "find (\<lambda>d. prefix (foreign @ ''-'') d) deps = Some d"
    by (simp add: find_first_match)
  with far f show "getKey this deps ref = (Some (d @ ''.'' @ ref), [])"
    by (simp add: getKey_foreign)
qed

text \<open>The five outcomes of C2 at concrete references of a module \<open>Gtk-3.0\<close>.\<close>

theorem getKey_resolution_order_witness:
  "getKey \<lparr>modPackageName = ''Gtk-3.0'', modNamespace = ''Gtk''\<rparr> [''Gtk-3.0''] ''Gtk-3.0.Gtk.Window''
      = (Some ''Gtk-3.0.Gtk.Window'', [])
   \<and> getKey \<lparr>modPackageName = ''Gtk-3.0'', modNamespace = ''Gtk''\<rparr> [''Gtk-3.0''] ''Gtk.Window''
      = (Some ''Gtk-3.0.Gtk.Window'', [])
   \<and> getKey \<lparr>modPackageName = ''Gtk-3.0'', modNamespace = ''Gtk''\<rparr> [''Gtk-3.0''] ''Window''
      = (Some ''Gtk-3.0.Gtk.Window'', [])
   \<and> getKey \<lparr>modPackageName = ''Gtk-3.0'', modNamespace = ''Gtk''\<rparr> [''GLib-2.0'', ''Gdk-3.0'', ''Gdk-4.0''] ''Gdk.Window''
      = (Some ''Gdk-3.0.Gdk.Window'', [])
   \<and> getKey \<lparr>modPackageName = ''Gtk-3.0'', modNamespace = ''Gtk''\<rparr> [] ''Foo.Bar''
      = (None, [WARN_NOT_FOUND_PACKAGE_NAME ''Foo'' ''Foo.Bar''])"
proof -
  let ?gtk = "\<lparr>modPackageName = ''Gtk-3.0'', modNamespace = ''Gtk''\<rparr>"
  have 1: "getKey ?gtk [''Gtk-3.0''] ''Gtk-3.0.Gtk.Window'' = (Some ''Gtk-3.0.Gtk.Window'', [])"
    using getKey_resolution_order [of ?gtk "''Gtk-3.0.Gtk.Window''" "[''Gtk-3.0'']"] by simp
  have 2: "getKey ?gtk [''Gtk-3.0''] ''Gtk.Window'' = (Some ''Gtk-3.0.Gtk.Window'', [])"
    using getKey_resolution_order [of ?gtk "''Gtk.Window''" "[''Gtk-3.0'']"] by simp
  have 3: "getKey ?gtk [''Gtk-3.0''] ''Window'' = (Some ''Gtk-3.0.Gtk.Window'', [])"
    using getKey_resolution_order [of ?gtk "''Window''" "[''Gtk-3.0'']"] by simp
  have 4: "getKey ?gtk [''GLib-2.0'', ''Gdk-3.0'', ''Gdk-4.0''] ''Gdk.Window''
      = (Some ''Gdk-3.0.Gdk.Window'', [])"
    using getKey_resolution_order [of ?gtk "''Gdk.Window''" "[''GLib-2.0'', ''Gdk-3.0'', ''Gdk-4.0'']",
        THEN conjunct2, THEN conjunct2, THEN conjunct2, THEN mp, THEN spec, THEN spec, THEN spec, THEN spec,
        of "''Gdk''" "[''GLib-2.0'']" "''Gdk-3.0''" "[''Gdk-4.0'']"]
    by simp
  have 5: "getKey ?gtk [] ''Foo.Bar'' = (None, [WARN_NOT_FOUND_PACKAGE_NAME ''Foo'' ''Foo.Bar''])"
    using getKey_resolution_order [of ?gtk "''Foo.Bar''" "[]"] by simp
  from 1 2 3 4 5 show ?thesis by simp
qed

text \<open>
  Claim C10. For a reference that starts with the owner's package name and a dot, or with
  the owner's namespace and a dot, or that contains no dot, \<open>getKey\<close> returns a string
  (never \<open>null\<close>) and emits no warning; the \<open>null\<close> branch is only reachable for a
  dotted reference into a foreign namespace.
\<close>

theorem getKey_local_never_null:
  assumes "prefix (modPackageName this @ ''.'') ref
           \<or> prefix (modNamespace this @ ''.'') ref
           \<or> CHR ''.'' \<notin> set ref"
  shows "\<exists>key. fst (getKey this deps ref) = Some key \<and> snd (getKey this deps ref) = []"
proof -
  consider (own) "prefix (modPackageName this @ ''.'') ref"
    | (short) "\<not> prefix (modPackageName this @ ''.'') ref" "prefix (modNamespace this @ ''.'') ref"
    | (bare) "\<not> prefix (modPackageName this @ ''.'') ref" "\<not> prefix (modNamespace this @ ''.'') ref"
        "CHR ''.'' \<notin> set ref"
    using assms by blast
  then show ?thesis
  proof cases
    case own
    then show ?thesis by (simp add: getKey_def)
  next
    case short
    then show ?thesis by (simp add: getKey_def)
  next
    case bare
    then show ?thesis by (simp add: getKey_def)
  qed
qed

text \<open>C10 at a namespace-shorthand reference and at a bare name.\<close>

theorem getKey_local_never_null_witness:
  "(\<exists>key. fst (getKey \<lparr>modPackageName = ''Gtk-3.0'', modNamespace = ''Gtk''\<rparr> [] ''Gtk.Window'') = Some key
      \<and> snd (getKey \<lparr>modPackageName = ''Gtk-3.0'', modNamespace = ''Gtk''\<rparr> [] ''Gtk.Window'') = [])
   \<and> (\<exists>key. fst (getKey \<lparr>modPackageName = ''Gtk-3.0'', modNamespace = ''Gtk''\<rparr> [] ''Window'') = Some key
      \<and> snd (getKey \<lparr>modPackageName = ''Gtk-3.0'', modNamespace = ''Gtk''\<rparr> [] ''Window'') = [])"
proof -
  let ?gtk = "\<lparr>modPackageName = ''Gtk-3.0'', modNamespace = ''Gtk''\<rparr>"
  have a: "prefix (modPackageName ?gtk @ ''.'') ''Gtk.Window''
           \<or> prefix (modNamespace ?gtk @ ''.'') ''Gtk.Window''
           \<or> CHR ''.'' \<notin> set ''Gtk.Window''"
    by simp
  have b: "prefix (modPackageName ?gtk @ ''.'') ''Window''
           \<or> prefix (modNamespace ?gtk @ ''.'') ''Window''
           \<or> CHR ''.'' \<notin> set ''Window''"
    by simp
  show ?thesis
    using getKey_local_never_null [OF a, of "[]"] getKey_local_never_null [OF b, of "[]"]
    by blast
qed

text \<open>
  Claim C9. Round trip of \<open>set\<close> and \<open>get\<close>: when \<open>getKey\<close> yields a key for the
  reference, \<open>get\<close> after \<open>set\<close> (same owner, same dependencies, same reference)
  returns the element that was stored; when \<open>getKey\<close> yields \<open>null\<close>, \<open>set\<close> leaves
  the table unchanged and \<open>get\<close> returns \<open>null\<close>.
\<close>

theorem set_get_roundtrip:
  fixes this :: SymTable and items :: "'e items" and element :: 'e
  shows
  "(fst (getKey this deps ref) \<noteq> None \<longrightarrow>
      fst (get this (fst (set_sym this items deps ref element)) deps ref) = Some element)
   \<and> (fst (getKey this deps ref) = None \<longrightarrow>
      fst (set_sym this items deps ref element) = items
      \<and> fst (get this items deps ref) = None)"
proof (cases "getKey this deps ref")
  case (Pair key warns)
  show ?thesis
  proof (cases key)
    case None
    with Pair show ?thesis
      by (simp add: get_def set_sym_def)
  next
    case (Some k)
    with Pair have "k \<noteq> []"
      using getKey_not_inherited(2) by blast
    with Pair Some show ?thesis
      by (simp add: get_def set_sym_def)
  qed
qed

text \<open>C9 at a resolvable foreign reference and at an unresolvable one.\<close>

theorem set_get_roundtrip_witness:
  "fst (get \<lparr>modPackageName = ''Gtk-3.0'', modNamespace = ''Gtk''\<rparr>
          (fst (set_sym \<lparr>modPackageName = ''Gtk-3.0'', modNamespace = ''Gtk''\<rparr>
                  Map.empty [''Gdk-3.0''] ''Gdk.Window'' (7::nat)))
          [''Gdk-3.0''] ''Gdk.Window'') = Some 7
   \<and> fst (set_sym \<lparr>modPackageName = ''Gtk-3.0'', modNamespace = ''Gtk''\<rparr>
            [''Gtk-3.0.Gtk.Window'' \<mapsto> 1] [] ''Foo.Bar'' (7::nat)) = [''Gtk-3.0.Gtk.Window'' \<mapsto> 1]
   \<and> fst (get \<lparr>modPackageName = ''Gtk-3.0'', modNamespace = ''Gtk''\<rparr>
            [''Gtk-3.0.Gtk.Window'' \<mapsto> (1::nat)] [] ''Foo.Bar'') = None"
proof -
  let ?gtk = "\<lparr>modPackageName = ''Gtk-3.0'', modNamespace = ''Gtk''\<rparr>"
  have some: "fst (getKey ?gtk [''Gdk-3.0''] ''Gdk.Window'') \<noteq> None"
    by (simp add: getKey_def first_segment_def)
  have none: "fst (getKey ?gtk [] ''Foo.Bar'') = None"
    by (simp add: getKey_def first_segment_def)
  show ?thesis
    using set_get_roundtrip [of ?gtk "[''Gdk-3.0'']" "''Gdk.Window''" Map.empty "7::nat"]
      set_get_roundtrip [of ?gtk "[]" "''Foo.Bar''" "[''Gtk-3.0.Gtk.Window'' \<mapsto> 1::nat]" 7]
      some none
    by blast
qed

section \<open>Properties of the traversal\<close>

lemma set_object_keys [simp]: "set (object_keys ks) = set ks"
  by (auto simp: object_keys_def)

lemma distinct_object_keys [simp]: "distinct (object_keys ks) = distinct ks"
proof -
  have "(distinct (filter P ks) \<and> distinct (filter (\<lambda>k. \<not> P k) ks)) = distinct ks"
    for P :: "string \<Rightarrow> bool"
    by (induction ks) auto
  from this [of is_array_index] show ?thesis
    by (auto simp: object_keys_def)
qed

lemma traverse_distinct:
  "distinct result \<Longrightarrow> distinct (traverseDependencies m name result)"
  "distinct result \<Longrightarrow> distinct (traverseDependencies_for m deps result)"
proof (induction m name result and m deps result rule: traverseDependencies_traverseDependencies_for.induct)
  case (1 m name result)
  then show ?case by (simp split: option.splits)
next
  case (2 m result)
  then show ?case by simp
next
  case (3 m dep deps result)
  show ?case
  proof (cases "truthy_at result (packageName dep)")
    case True
    with 3 show ?thesis by simp
  next
    case False
    then have "distinct (result @ [packageName dep])"
      using "3.prems" by (simp add: truthy_at_def)
    with 3 False show ?thesis by simp
  qed
qed

text \<open>
  Claim C3. For every (finite) dependency map, cyclic or not, \<open>traverseDependencies\<close>
  terminates: every argument lies in the accessible part of the recursion relation.
  The names it collects are pairwise distinct, so each transitive dependency name
  appears at most once in the list stored for a module.
\<close>

theorem traverseDependencies_terminates_distinct:
  "traverseDependencies_traverseDependencies_for_dom (Inl (m, name, []))
   \<and> distinct (traverseDependencies m name [])
   \<and> (\<forall>girModule \<in> set (setTraverseDependenciesForModules m mods).
         distinct (transitiveDependencies (module girModule)))"
proof (intro conjI ballI)
  show "traverseDependencies_traverseDependencies_for_dom (Inl (m, name, []))"
    using traverseDependencies_total by blast
  show "distinct (traverseDependencies m name [])"
    by (rule traverse_distinct(1)) simp
  fix girModule
  assume "girModule \<in> set (setTraverseDependenciesForModules m mods)"
  then obtain g where "girModule = g\<lparr>module := (module g)
              \<lparr>transitiveDependencies :=
                 object_keys (traverseDependencies m (packageName g) [])\<rparr>\<rparr>"
    by (auto simp: setTraverseDependenciesForModules_def)
  moreover have "distinct (traverseDependencies m (packageName g) [])"
    by (rule traverse_distinct(1)) simp
  ultimately show "distinct (transitiveDependencies (module girModule))"
    by (simp del: traverseDependencies.simps)
qed

text \<open>C3 on a map with the cycle \<open>A-1.0\<close>, \<open>B-1.0\<close>.\<close>

theorem traverseDependencies_terminates_distinct_witness:
  "traverseDependencies_traverseDependencies_for_dom
     (Inl ([(''A-1.0'', [\<lparr>packageName = ''B-1.0'', dep_namespace = ''B'', dep_version = ''1.0''\<rparr>]),
            (''B-1.0'', [\<lparr>packageName = ''A-1.0'', dep_namespace = ''A'', dep_version = ''1.0''\<rparr>])],
           ''A-1.0'', []))
   \<and> distinct (transitiveDependencies (module (hd (setTraverseDependenciesForModules
         [(''A-1.0'', [\<lparr>packageName = ''B-1.0'', dep_namespace = ''B'', dep_version = ''1.0''\<rparr>]),
          (''B-1.0'', [\<lparr>packageName = ''A-1.0'', dep_namespace = ''A'', dep_version = ''1.0''\<rparr>])]
         [\<lparr>packageName = ''A-1.0'',
           module = \<lparr>packageName = ''A-1.0'', dependencies = [''B-1.0''], transitiveDependencies = []\<rparr>,
           resolvedBy = BY_HAND\<rparr>]))))"
proof -
  let ?m = "[(''A-1.0'', [\<lparr>packageName = ''B-1.0'', dep_namespace = ''B'', dep_version = ''1.0''\<rparr>]),
             (''B-1.0'', [\<lparr>packageName = ''A-1.0'', dep_namespace = ''A'', dep_version = ''1.0''\<rparr>])]"
  let ?g = "\<lparr>packageName = ''A-1.0'',
           module = \<lparr>packageName = ''A-1.0'', dependencies = [''B-1.0''], transitiveDependencies = []\<rparr>,
           resolvedBy = BY_HAND\<rparr>"
  have "hd (setTraverseDependenciesForModules ?m [?g]) \<in> set (setTraverseDependenciesForModules ?m [?g])"
    by (simp add: setTraverseDependenciesForModules_def del: traverseDependencies.simps)
  with traverseDependencies_terminates_distinct [of ?m "''A-1.0''" "[?g]"]
  show ?thesis by blast
qed

text \<open>
  Claim C1, as the code has it. On a two-module cycle (\<open>A\<close> depends on \<open>B\<close> only, \<open>B\<close> on
  \<open>A\<close> only, neither name an inherited property name) the traversal terminates, and the
  closure computed for \<open>A\<close> holds exactly \<open>A\<close> and \<open>B\<close>, each once: the walk starts with
  nothing marked, so the cycle leads back to \<open>A\<close>, which is then added. Likewise the
  closure of \<open>B\<close> holds exactly \<open>A\<close> and \<open>B\<close>;
  \<open>setTraverseDependenciesForModules\<close> stores lists with exactly these elements, without
  repetition.
\<close>

theorem two_cycle_closure:
  assumes "A \<notin> set inherited_keys" and "B \<notin> set inherited_keys"
    and "map_of m A = Some [dB]" and "packageName dB = B"
    and "map_of m B = Some [dA]" and "packageName dA = A"
    and "packageName gA = A" and "packageName gB = B"
  shows "traverseDependencies_traverseDependencies_for_dom (Inl (m, A, []))
       \<and> set (traverseDependencies m A []) = {A, B}
       \<and> distinct (traverseDependencies m A [])
       \<and> traverseDependencies_traverseDependencies_for_dom (Inl (m, B, []))
       \<and> set (traverseDependencies m B []) = {A, B}
       \<and> distinct (traverseDependencies m B [])
       \<and> map (\<lambda>g. set (transitiveDependencies (module g)))
             (setTraverseDependenciesForModules m [gA, gB]) = [{A, B}, {A, B}]
       \<and> (\<forall>g\<in>set (setTraverseDependenciesForModules m [gA, gB]).
             distinct (transitiveDependencies (module g)))"
proof -
  have walk: "set (traverseDependencies m X []) = {X, Y}"
    if "X \<notin> set inherited_keys" "Y \<notin> set inherited_keys"
      "map_of m X = Some [dY]" "packageName dY = Y" "map_of m Y = Some [dX]" "packageName dX = X"
    for X Y dX dY
    using that by (cases "X = Y") (auto simp: truthy_at_def)
  have a: "set (traverseDependencies m A []) = {A, B}"
    using assms by (intro walk [of A B dB dA]) auto
  have "set (traverseDependencies m B []) = {B, A}"
    using assms by (intro walk [of B A dA dB]) auto
  then have b: "set (traverseDependencies m B []) = {A, B}"
    by (simp add: insert_commute del: traverseDependencies.simps)
  have d: "distinct (traverseDependencies m X [])" for X
    by (rule traverse_distinct(1)) simp
  have "map (\<lambda>g. set (transitiveDependencies (module g)))
             (setTraverseDependenciesForModules m [gA, gB])
           = [set (traverseDependencies m A []), set (traverseDependencies m B [])]"
    using assms(7,8) by (simp add: setTraverseDependenciesForModules_def del: traverseDependencies.simps)
  moreover have "\<forall>g\<in>set (setTraverseDependenciesForModules m [gA, gB]).
             distinct (transitiveDependencies (module g))"
    using d by (simp add: setTraverseDependenciesForModules_def del: traverseDependencies.simps)
  ultimately show ?thesis
    using a b d traverseDependencies_total by (simp del: traverseDependencies.simps)
qed

text \<open>
  C1 as the code has it, on the cycle \<open>A-1.0\<close>, \<open>B-1.0\<close>, and on the cycle of two
  modules named \<open>2\<close> and \<open>1\<close>, whose closures \<open>Object.keys\<close> lists in numeric order.
\<close>

theorem two_cycle_closure_witness:
  "set (traverseDependencies
     [(''A-1.0'', [\<lparr>packageName = ''B-1.0'', dep_namespace = ''B'', dep_version = ''1.0''\<rparr>]),
      (''B-1.0'', [\<lparr>packageName = ''A-1.0'', dep_namespace = ''A'', dep_version = ''1.0''\<rparr>])]
     ''A-1.0'' []) = {''A-1.0'', ''B-1.0''}
   \<and> set (traverseDependencies
     [(''A-1.0'', [\<lparr>packageName = ''B-1.0'', dep_namespace = ''B'', dep_version = ''1.0''\<rparr>]),
      (''B-1.0'', [\<lparr>packageName = ''A-1.0'', dep_namespace = ''A'', dep_version = ''1.0''\<rparr>])]
     ''B-1.0'' []) = {''A-1.0'', ''B-1.0''}
   \<and> map (\<lambda>g. transitiveDependencies (module g))
       (setTraverseDependenciesForModules
          [(''2'', [\<lparr>packageName = ''1'', dep_namespace = ''1'', dep_version = []\<rparr>]),
           (''1'', [\<lparr>packageName = ''2'', dep_namespace = ''2'', dep_version = []\<rparr>])]
          [\<lparr>packageName = ''2'',
            module = \<lparr>packageName = ''2'', dependencies = [''1''], transitiveDependencies = []\<rparr>,
            resolvedBy = BY_HAND\<rparr>,
           \<lparr>packageName = ''1'',
            module = \<lparr>packageName = ''1'', dependencies = [''2''], transitiveDependencies = []\<rparr>,
            resolvedBy = BY_HAND\<rparr>])
     = [[''1'', ''2''], [''1'', ''2'']]"
proof -
  let ?dA = "\<lparr>packageName = ''A-1.0'', dep_namespace = ''A'', dep_version = ''1.0''\<rparr>"
  let ?dB = "\<lparr>packageName = ''B-1.0'', dep_namespace = ''B'', dep_version = ''1.0''\<rparr>"
  let ?m = "[(''A-1.0'', [?dB]), (''B-1.0'', [?dA])]"
  let ?g = "\<lambda>n d. \<lparr>packageName = n,
           module = \<lparr>packageName = n, dependencies = [d], transitiveDependencies = []\<rparr>,
           resolvedBy = BY_HAND\<rparr>"
  have 1: "set (traverseDependencies ?m ''A-1.0'' []) = {''A-1.0'', ''B-1.0''}
      \<and> set (traverseDependencies ?m ''B-1.0'' []) = {''A-1.0'', ''B-1.0''}"
    using two_cycle_closure [of "''A-1.0''" "''B-1.0''" ?m ?dB ?dA
        "?g ''A-1.0'' ''B-1.0''" "?g ''B-1.0'' ''A-1.0''"]
    by (simp add: inherited_keys_def del: traverseDependencies.simps)
  let ?d1 = "\<lparr>packageName = ''1'', dep_namespace = ''1'', dep_version = []\<rparr>"
  let ?d2 = "\<lparr>packageName = ''2'', dep_namespace = ''2'', dep_version = []\<rparr>"
  let ?n = "[(''2'', [?d1]), (''1'', [?d2])]"
  have 2: "map (\<lambda>g. transitiveDependencies (module g))
       (setTraverseDependenciesForModules ?n [?g ''2'' ''1'', ?g ''1'' ''2''])
     = [[''1'', ''2''], [''1'', ''2'']]"
    by (simp add: setTraverseDependenciesForModules_def truthy_at_def inherited_keys_def
        object_keys_def is_array_index_def index_value_def)
  from 1 2 show ?thesis by blast
qed

text \<open>
  The claim C1 as stated fails: on that cycle the closure computed for \<open>A-1.0\<close> is not
  the set holding \<open>B-1.0\<close> alone, it holds \<open>A-1.0\<close> as well.
\<close>

theorem two_cycle_counterexample:
  "traverseDependencies
     [(''A-1.0'', [\<lparr>packageName = ''B-1.0'', dep_namespace = ''B'', dep_version = ''1.0''\<rparr>]),
      (''B-1.0'', [\<lparr>packageName = ''A-1.0'', dep_namespace = ''A'', dep_version = ''1.0''\<rparr>])]
     ''A-1.0'' [] = [''B-1.0'', ''A-1.0'']
   \<and> set (traverseDependencies
     [(''A-1.0'', [\<lparr>packageName = ''B-1.0'', dep_namespace = ''B'', dep_version = ''1.0''\<rparr>]),
      (''B-1.0'', [\<lparr>packageName = ''A-1.0'', dep_namespace = ''A'', dep_version = ''1.0''\<rparr>])]
     ''A-1.0'' []) \<noteq> {''B-1.0''}"
  by (simp add: truthy_at_def inherited_keys_def)

lemma traverse_sound:
  "set (traverseDependencies m name result) \<subseteq> set result \<union> {b. (name, b) \<in> (depends_on m)\<^sup>+}"
  "set (traverseDependencies_for m deps result)
     \<subseteq> set result \<union> {b. \<exists>d\<in>set deps. packageName d \<notin> set inherited_keys
                          \<and> (b = packageName d \<or> (packageName d, b) \<in> (depends_on m)\<^sup>+)}"
proof (induction m name result and m deps result rule: traverseDependencies_traverseDependencies_for.induct)
  case (1 m name result)
  show ?case
  proof (cases "map_of m name")
    case None
    then show ?thesis by simp
  next
    case (Some deps)
    have "(name, b) \<in> (depends_on m)\<^sup>+"
      if "d \<in> set deps" "packageName d \<notin> set inherited_keys"
        "b = packageName d \<or> (packageName d, b) \<in> (depends_on m)\<^sup>+" for d b
    proof -
      from Some that(1,2) have "(name, packageName d) \<in> depends_on m"
        by (auto simp: depends_on_def)
      with that(3) show ?thesis by (auto intro: trancl_into_trancl2)
    qed
    with "1.IH" [OF Some] Some show ?thesis by auto
  qed
next
  case (2 m result)
  show ?case by simp
next
  case (3 m dep deps result)
  show ?case
  proof (cases "truthy_at result (packageName dep)")
    case True
    with "3.IH"(1) show ?thesis by auto
  next
    case False
    then have ni: "packageName dep \<notin> set inherited_keys" by (simp add: truthy_at_def)
    let ?r1 = "traverseDependencies m (packageName dep) (result @ [packageName dep])"
    from "3.IH"(2) [OF False]
    have inner: "set ?r1 \<subseteq> set result \<union> {packageName dep} \<union> {b. (packageName dep, b) \<in> (depends_on m)\<^sup>+}"
      by auto
    from "3.IH"(3) [OF False] False
    have outer: "set (traverseDependencies_for m (dep # deps) result)
      \<subseteq> set ?r1 \<union> {b. \<exists>d\<in>set deps. packageName d \<notin> set inherited_keys
                          \<and> (b = packageName d \<or> (packageName d, b) \<in> (depends_on m)\<^sup>+)}"
      by simp
    show ?thesis
    proof
      fix b
      assume "b \<in> set (traverseDependencies_for m (dep # deps) result)"
      with outer consider "b \<in> set ?r1"
        | "\<exists>d\<in>set deps. packageName d \<notin> set inherited_keys
                          \<and> (b = packageName d \<or> (packageName d, b) \<in> (depends_on m)\<^sup>+)"
        by blast
      then show "b \<in> set result \<union> {b. \<exists>d\<in>set (dep # deps). packageName d \<notin> set inherited_keys
                          \<and> (b = packageName d \<or> (packageName d, b) \<in> (depends_on m)\<^sup>+)}"
      proof cases
        case 1
        with inner ni show ?thesis by auto
      next
        case 2
        then show ?thesis by auto
      qed
    qed
  qed
qed

lemma traverse_complete:
  "processed m (set result) (set (traverseDependencies m name result))
   \<and> (\<forall>b. (name, b) \<in> depends_on m \<longrightarrow> b \<in> set (traverseDependencies m name result))"
  "processed m (set result) (set (traverseDependencies_for m deps result))
   \<and> (\<forall>d\<in>set deps. packageName d \<notin> set inherited_keys
         \<longrightarrow> packageName d \<in> set (traverseDependencies_for m deps result))"
proof (induction m name result and m deps result rule: traverseDependencies_traverseDependencies_for.induct)
  case (1 m name result)
  show ?case
  proof (cases "map_of m name")
    case None
    then show ?thesis by (simp add: processed_def depends_on_def)
  next
    case (Some deps)
    with "1.IH" [OF Some] show ?thesis
      by (auto simp: depends_on_def)
  qed
next
  case (2 m result)
  show ?case by (simp add: processed_def)
next
  case (3 m dep deps result)
  show ?case
  proof (cases "truthy_at result (packageName dep)")
    case True
    from "3.IH"(1) [OF True]
    have p: "processed m (set result) (set (traverseDependencies_for m deps result))"
      and r: "\<forall>d\<in>set deps. packageName d \<notin> set inherited_keys
         \<longrightarrow> packageName d \<in> set (traverseDependencies_for m deps result)" by auto
    from True p have "packageName dep \<notin> set inherited_keys
         \<longrightarrow> packageName dep \<in> set (traverseDependencies_for m deps result)"
      by (auto simp: truthy_at_def processed_def)
    with True p r show ?thesis by simp
  next
    case False
    let ?r1 = "traverseDependencies m (packageName dep) (result @ [packageName dep])"
    let ?r2 = "traverseDependencies_for m deps ?r1"
    from "3.IH"(2) [OF False]
    have p1: "processed m (set (result @ [packageName dep])) (set ?r1)"
      and s1: "\<forall>b. (packageName dep, b) \<in> depends_on m \<longrightarrow> b \<in> set ?r1" by auto
    from "3.IH"(3) [OF False]
    have p2: "processed m (set ?r1) (set ?r2)"
      and r2: "\<forall>d\<in>set deps. packageName d \<notin> set inherited_keys \<longrightarrow> packageName d \<in> set ?r2"
      by auto
    have sub: "set result \<subseteq> set ?r1" "packageName dep \<in> set ?r1" "set ?r1 \<subseteq> set ?r2"
      using p1 p2 by (auto simp: processed_def)
    have "processed m (set result) (set ?r2)"
      unfolding processed_def
    proof (intro conjI ballI allI impI)
      show "set result \<subseteq> set ?r2" using sub by blast
    next
      fix a b
      assume a: "a \<in> set ?r2 - set result" and e: "(a, b) \<in> depends_on m"
      consider "a \<in> set ?r2 - set ?r1" | "a = packageName dep"
        | "a \<in> set ?r1 - set (result @ [packageName dep])"
        using a by auto
      then show "b \<in> set ?r2"
      proof cases
        case 1
        with p2 e show ?thesis by (auto simp: processed_def)
      next
        case 2
        with s1 e sub show ?thesis by blast
      next
        case 3
        with p1 e have "b \<in> set ?r1" unfolding processed_def by blast
        with sub show ?thesis by blast
      qed
    qed
    moreover have "\<forall>d\<in>set (dep # deps). packageName d \<notin> set inherited_keys \<longrightarrow> packageName d \<in> set ?r2"
      using r2 sub by auto
    ultimately show ?thesis using False by simp
  qed
qed

text \<open>
  The traversal computes the transitive closure: the names collected for a module are
  exactly those reachable from it over one or more dependency edges. The module's own
  name is among them exactly when it lies on a dependency cycle.
\<close>

theorem traverseDependencies_is_closure:
  "set (traverseDependencies m name []) = {b. (name, b) \<in> (depends_on m)\<^sup>+}
   \<and> (name \<in> set (traverseDependencies m name []) \<longleftrightarrow> (name, name) \<in> (depends_on m)\<^sup>+)"
proof -
  have closure: "set (traverseDependencies m name []) = {b. (name, b) \<in> (depends_on m)\<^sup>+}"
  proof
  show "set (traverseDependencies m name []) \<subseteq> {b. (name, b) \<in> (depends_on m)\<^sup>+}"
    using traverse_sound(1) [of m name "[]"] by simp
next
  let ?R = "set (traverseDependencies m name [])"
  from traverse_complete(1) [of m "[]" name]
  have closed: "\<And>a b. a \<in> ?R \<Longrightarrow> (a, b) \<in> depends_on m \<Longrightarrow> b \<in> ?R"
    and first: "\<And>b. (name, b) \<in> depends_on m \<Longrightarrow> b \<in> ?R"
    by (auto simp: processed_def simp del: traverseDependencies.simps)
  have "b \<in> ?R" if "(name, b) \<in> (depends_on m)\<^sup>+" for b
    using that
  proof (induction rule: trancl_induct)
    case (base y)
    then show ?case by (rule first)
  next
    case (step y z)
    then show ?case using closed by blast
  qed
  then show "{b. (name, b) \<in> (depends_on m)\<^sup>+} \<subseteq> ?R" by blast
  qed
  then show ?thesis by (simp del: traverseDependencies.simps)
qed

text \<open>On the cycle \<open>A-1.0\<close>, \<open>B-1.0\<close> each module reaches itself.\<close>

theorem traverseDependencies_is_closure_witness:
  "(''A-1.0'', ''A-1.0'') \<in>
     (depends_on
       [(''A-1.0'', [\<lparr>packageName = ''B-1.0'', dep_namespace = ''B'', dep_version = ''1.0''\<rparr>]),
        (''B-1.0'', [\<lparr>packageName = ''A-1.0'', dep_namespace = ''A'', dep_version = ''1.0''\<rparr>])])\<^sup>+"
proof -
  let ?m = "[(''A-1.0'', [\<lparr>packageName = ''B-1.0'', dep_namespace = ''B'', dep_version = ''1.0''\<rparr>]),
             (''B-1.0'', [\<lparr>packageName = ''A-1.0'', dep_namespace = ''A'', dep_version = ''1.0''\<rparr>])]"
  have "traverseDependencies ?m ''A-1.0'' [] = [''B-1.0'', ''A-1.0'']"
    by (simp add: truthy_at_def inherited_keys_def)
  then have "''A-1.0'' \<in> set (traverseDependencies ?m ''A-1.0'' [])"
    by (simp del: traverseDependencies.simps)
  with traverseDependencies_is_closure [of ?m "''A-1.0''"] show ?thesis
    by blast
qed

section \<open>Properties of the grouping\<close>

lemma grouped_of_Nil: "grouped_of sp [] []"
  by (simp add: grouped_of_def)

lemma filter_none: "(\<forall>g\<in>set xs. \<not> P g) \<Longrightarrow> filter P xs = []"
  by (induction xs) auto

lemma set_update_distinct:
  "distinct (map fst al) \<Longrightarrow> (k, v0) \<in> set al \<Longrightarrow>
   set (AList.update k v al) = insert (k, v) (set al - {(k, v0)})"
proof (induction al)
  case Nil
  then show ?case by simp
next
  case (Cons p al)
  show ?case
  proof (cases "fst p = k")
    case True
    with Cons.prems have "p = (k, v0)"
      by (cases p) (auto simp: image_iff)
    moreover from Cons.prems True have "\<forall>q\<in>set al. fst q \<noteq> k"
      by (auto simp: image_iff)
    ultimately show ?thesis by auto
  next
    case False
    with Cons.prems have "(k, v0) \<in> set al" by auto
    with Cons False show ?thesis by auto
  qed
qed

lemma group_ok_other:
  "group_ok sp mods k grp \<Longrightarrow> group_id sp g \<noteq> k \<Longrightarrow> group_ok sp (mods @ [g]) k grp"
  by (auto simp: group_ok_def)

lemma group_ok_first:
  assumes "\<forall>h\<in>set mods. group_id sp h \<noteq> group_id sp g"
  shows "group_ok sp (mods @ [g]) (group_id sp g)
           \<lparr>namespace = fst (sp (packageName g)), modules = [g], hasConflict = False\<rparr>"
proof -
  have "filter (\<lambda>h. group_id sp h = group_id sp g) mods = []"
    using assms by (intro filter_none) auto
  then show ?thesis by (simp add: group_ok_def)
qed

lemma group_ok_next:
  assumes "group_ok sp mods (group_id sp g) grp"
  shows "group_ok sp (mods @ [g]) (group_id sp g)
           (grp\<lparr>modules := modules grp @ [g], hasConflict := True\<rparr>)"
proof -
  let ?P = "\<lambda>h. group_id sp h = group_id sp g"
  from assms have m: "modules grp = filter ?P mods" and ne: "modules grp \<noteq> []"
    and ns: "namespace grp = fst (sp (packageName (hd (modules grp))))"
    by (auto simp: group_ok_def)
  have f: "filter ?P (mods @ [g]) = modules grp @ [g]"
    using m by simp
  have h: "hd (modules grp @ [g]) = hd (modules grp)"
    using ne by simp
  have l: "2 \<le> length (modules grp @ [g])"
    using ne by (cases "modules grp") auto
  show ?thesis
    unfolding group_ok_def f using h l ns ne by simp
qed

lemma groupGirFiles_body_new:
  assumes inv: "grouped_of sp mods acc"
    and new: "map_of acc (group_id sp g) = None"
    and ok: "group_id sp g \<notin> set inherited_keys"
  shows "\<exists>acc'. groupGirFiles_body sp acc g = Inr acc' \<and> grouped_of sp (mods @ [g]) acc'"
proof -
  let ?id = "group_id sp g"
  let ?new = "\<lparr>namespace = fst (sp (packageName g)), modules = [g], hasConflict = False\<rparr>"
  have body: "groupGirFiles_body sp acc g = Inr (acc @ [(?id, ?new)])"
    using new ok by (simp add: groupGirFiles_body_def group_id_def Let_def)
  have fresh: "?id \<notin> fst ` set acc"
    using new by (simp add: map_of_eq_None_iff)
  moreover from inv have "fst ` set acc = group_id sp ` set mods"
    by (simp add: grouped_of_def)
  ultimately have none: "\<forall>h\<in>set mods. group_id sp h \<noteq> ?id"
    by (metis image_eqI)
  have 1: "distinct (map fst (acc @ [(?id, ?new)]))"
    using inv fresh by (simp add: grouped_of_def)
  have 2: "fst ` set (acc @ [(?id, ?new)]) = group_id sp ` set (mods @ [g])"
    using inv by (auto simp: grouped_of_def)
  have 3: "group_ok sp (mods @ [g]) k grp" if "(k, grp) \<in> set (acc @ [(?id, ?new)])" for k grp
  proof (cases "(k, grp) \<in> set acc")
    case True
    then have "k \<noteq> ?id" using fresh by force
    moreover from inv True have "group_ok sp mods k grp"
      by (auto simp: grouped_of_def)
    ultimately show ?thesis by (intro group_ok_other) auto
  next
    case False
    with that have "k = ?id" "grp = ?new" by auto
    with group_ok_first [OF none] show ?thesis by simp
  qed
  from body 1 2 3 show ?thesis
    unfolding grouped_of_def by blast
qed

lemma groupGirFiles_body_old:
  assumes inv: "grouped_of sp mods acc"
    and old: "map_of acc (group_id sp g) = Some grp"
  shows "\<exists>acc'. groupGirFiles_body sp acc g = Inr acc' \<and> grouped_of sp (mods @ [g]) acc'"
proof -
  let ?id = "group_id sp g"
  let ?grp' = "grp\<lparr>modules := modules grp @ [g], hasConflict := True\<rparr>"
  let ?acc' = "AList.update ?id ?grp' acc"
  have body: "groupGirFiles_body sp acc g = Inr ?acc'"
    using old by (simp add: groupGirFiles_body_def group_id_def Let_def)
  from inv have d: "distinct (map fst acc)" by (simp add: grouped_of_def)
  with old have mem: "(?id, grp) \<in> set acc" by simp
  have s: "set ?acc' = insert (?id, ?grp') (set acc - {(?id, grp)})"
    using d mem by (rule set_update_distinct)
  have 1: "distinct (map fst ?acc')"
    using d by (simp add: distinct_update)
  have "fst ` set ?acc' = {?id} \<union> fst ` set acc"
    by (simp add: dom_update)
  also have "\<dots> = group_id sp ` set (mods @ [g])"
    using inv by (auto simp: grouped_of_def)
  finally have 2: "fst ` set ?acc' = group_id sp ` set (mods @ [g])" .
  have 3: "group_ok sp (mods @ [g]) k x" if "(k, x) \<in> set ?acc'" for k x
  proof (cases "k = ?id")
    case True
    have "x = ?grp'"
    proof (rule ccontr)
      assume "x \<noteq> ?grp'"
      with that s True have "(?id, x) \<in> set acc" "x \<noteq> grp" by auto
      with d mem show False by (metis map_of_is_SomeI option.inject)
    qed
    moreover from inv mem have "group_ok sp mods ?id grp"
      by (auto simp: grouped_of_def)
    ultimately show ?thesis
      using True group_ok_next by simp
  next
    case False
    with that s have "(k, x) \<in> set acc" by auto
    with inv have "group_ok sp mods k x" by (auto simp: grouped_of_def)
    with False show ?thesis by (intro group_ok_other) auto
  qed
  from body 1 2 3 show ?thesis
    unfolding grouped_of_def by blast
qed

lemma groupGirFiles_for_grouped:
  assumes "grouped_of sp done acc"
    and "\<forall>g\<in>set rest. group_id sp g \<notin> set inherited_keys"
  shows "\<exists>r. groupGirFiles_for sp acc rest = Inr r \<and> grouped_of sp (done @ rest) r"
  using assms
proof (induction rest arbitrary: acc "done")
  case Nil
  then show ?case by simp
next
  case (Cons g rest)
  have "\<exists>acc'. groupGirFiles_body sp acc g = Inr acc' \<and> grouped_of sp (done @ [g]) acc'"
  proof (cases "map_of acc (group_id sp g)")
    case None
    with Cons.prems show ?thesis by (intro groupGirFiles_body_new) auto
  next
    case (Some grp)
    with Cons.prems show ?thesis by (intro groupGirFiles_body_old) auto
  qed
  then obtain acc' where b: "groupGirFiles_body sp acc g = Inr acc'"
    and i: "grouped_of sp (done @ [g]) acc'" by blast
  from Cons.IH [OF i] Cons.prems(2)
  obtain r where "groupGirFiles_for sp acc' rest = Inr r" "grouped_of sp ((done @ [g]) @ rest) r"
    by auto
  with b show ?case by simp
qed

lemma groupGirFiles_grouped:
  assumes "\<forall>g\<in>set mods. group_id sp g \<notin> set inherited_keys"
  shows "\<exists>r. groupGirFiles sp mods = Inr r \<and> grouped_of sp mods r"
  using groupGirFiles_for_grouped [OF grouped_of_Nil assms] by (simp add: groupGirFiles_def)

lemma groupGirFiles_for_append:
  "groupGirFiles_for sp acc (xs @ ys) =
     (case groupGirFiles_for sp acc xs of Inl e \<Rightarrow> Inl e | Inr acc' \<Rightarrow> groupGirFiles_for sp acc' ys)"
  by (induction xs arbitrary: acc) (auto split: sum.splits)

lemma groupGirFiles_throws:
  assumes "\<forall>g\<in>set pre. group_id sp g \<notin> set inherited_keys"
    and "group_id sp bad \<in> set inherited_keys"
  shows "groupGirFiles sp (pre @ bad # post) = Inl TypeError"
proof -
  from groupGirFiles_for_grouped [OF grouped_of_Nil assms(1)]
  obtain acc where a: "groupGirFiles_for sp [] pre = Inr acc" and inv: "grouped_of sp pre acc"
    by auto
  from inv assms have "group_id sp bad \<notin> fst ` set acc"
    by (auto simp: grouped_of_def)
  then have "map_of acc (group_id sp bad) = None"
    by (simp add: map_of_eq_None_iff)
  with assms(2) have "groupGirFiles_body sp acc bad = Inl TypeError"
    by (simp add: groupGirFiles_body_def group_id_def Let_def)
  with a show ?thesis
    by (simp add: groupGirFiles_def groupGirFiles_for_append)
qed

text \<open>
  The grouping property of \<open>groupGirFiles\<close>: when no module's lower-cased namespace is an
  inherited property name, \<open>groupGirFiles\<close> returns, and what it returns is a correct
  grouping of its input (keys, members in input order, conflict flag).
\<close>

theorem groupGirFiles_partitions:
  "(\<forall>g\<in>set mods. group_id sp g \<notin> set inherited_keys) \<longrightarrow>
     (\<exists>r. groupGirFiles sp mods = Inr r \<and> grouped_of sp mods r)"
  using groupGirFiles_grouped by blast

text \<open>The grouping property on \<open>Gtk-3.0\<close> and \<open>Gtk-4.0\<close>.\<close>

theorem groupGirFiles_partitions_witness:
  "\<exists>r. groupGirFiles splitModuleName_spec
       [\<lparr>packageName = ''Gtk-3.0'',
          module = \<lparr>packageName = ''Gtk-3.0'', dependencies = [], transitiveDependencies = []\<rparr>,
          resolvedBy = BY_HAND\<rparr>,
        \<lparr>packageName = ''Gtk-4.0'',
          module = \<lparr>packageName = ''Gtk-4.0'', dependencies = [], transitiveDependencies = []\<rparr>,
          resolvedBy = BY_HAND\<rparr>] = Inr r
     \<and> grouped_of splitModuleName_spec
       [\<lparr>packageName = ''Gtk-3.0'',
          module = \<lparr>packageName = ''Gtk-3.0'', dependencies = [], transitiveDependencies = []\<rparr>,
          resolvedBy = BY_HAND\<rparr>,
        \<lparr>packageName = ''Gtk-4.0'',
          module = \<lparr>packageName = ''Gtk-4.0'', dependencies = [], transitiveDependencies = []\<rparr>,
          resolvedBy = BY_HAND\<rparr>] r"
proof -
  let ?g = "\<lambda>n. \<lparr>packageName = n,
          module = \<lparr>packageName = n, dependencies = [], transitiveDependencies = []\<rparr>,
          resolvedBy = BY_HAND\<rparr>"
  have "\<forall>g\<in>set [?g ''Gtk-3.0'', ?g ''Gtk-4.0'']. group_id splitModuleName_spec g \<notin> set inherited_keys"
    by (simp add: group_id_def splitModuleName_spec_def toLowerCase_def inherited_keys_def)
  with groupGirFiles_partitions [of "[?g ''Gtk-3.0'', ?g ''Gtk-4.0'']" splitModuleName_spec]
  show ?thesis by blast
qed

text \<open>
  \<open>Gtk-3.0\<close> and \<open>Gtk-4.0\<close> yield one group keyed \<open>gtk\<close>, flagged as a conflict, with
  both members in the order of discovery.
\<close>

theorem groupGirFiles_gtk_example:
  "groupGirFiles splitModuleName_spec
       [\<lparr>packageName = ''Gtk-3.0'',
          module = \<lparr>packageName = ''Gtk-3.0'', dependencies = [], transitiveDependencies = []\<rparr>,
          resolvedBy = BY_HAND\<rparr>,
        \<lparr>packageName = ''Gtk-4.0'',
          module = \<lparr>packageName = ''Gtk-4.0'', dependencies = [], transitiveDependencies = []\<rparr>,
          resolvedBy = BY_HAND\<rparr>]
   = Inr [(''gtk'', \<lparr>namespace = ''Gtk'',
             modules = [\<lparr>packageName = ''Gtk-3.0'',
          module = \<lparr>packageName = ''Gtk-3.0'', dependencies = [], transitiveDependencies = []\<rparr>,
          resolvedBy = BY_HAND\<rparr>,
        \<lparr>packageName = ''Gtk-4.0'',
          module = \<lparr>packageName = ''Gtk-4.0'', dependencies = [], transitiveDependencies = []\<rparr>,
          resolvedBy = BY_HAND\<rparr>], hasConflict = True\<rparr>)]"
  by (simp add: groupGirFiles_def groupGirFiles_body_def splitModuleName_spec_def toLowerCase_def
      inherited_keys_def)

text \<open>
  Claim C7 says that \<open>groupGirFiles\<close> partitions every input module list by
  lower-cased namespace. The code does so except when a namespace lower-cases to an
  inherited property name: for the modules \<open>Gtk-3.0\<close> and \<open>constructor-1.0\<close> it
  throws a \<open>TypeError\<close> instead of returning the two groups.
\<close>

theorem groupGirFiles_inherited_key_throws:
  "groupGirFiles splitModuleName_spec
     [\<lparr>packageName = ''Gtk-3.0'',
        module = \<lparr>packageName = ''Gtk-3.0'', dependencies = [], transitiveDependencies = []\<rparr>,
        resolvedBy = BY_HAND\<rparr>,
      \<lparr>packageName = ''constructor-1.0'',
        module = \<lparr>packageName = ''constructor-1.0'', dependencies = [], transitiveDependencies = []\<rparr>,
        resolvedBy = BY_HAND\<rparr>] = Inl TypeError"
  by (simp add: groupGirFiles_def groupGirFiles_body_def splitModuleName_spec_def toLowerCase_def
      inherited_keys_def)

section \<open>Properties of the conflict resolution\<close>

lemma set_fold_set_add: "set (fold set_add xs s) = set s \<union> set xs"
  by (induction xs arbitrary: s) (auto simp: set_add_def)

lemma set_union_set: "set (union_set target source) = set target \<union> set source"
  by (simp add: union_set_def set_fold_set_add)

lemma set_new_Set: "set (new_Set xs) = set xs"
  by (simp add: new_Set_def set_fold_set_add)

lemma findModulesDependOnPackages_Nil: "findModulesDependOnPackages m [] = []"
  by (simp add: findModulesDependOnPackages_def)

lemma askForVersionsPrompt_All:
  "askForVersionsPrompt grp ''All'' =
     Inr \<lparr>selected = filter (\<lambda>n. n \<noteq> ''All'') (map packageName (modules grp)), unselected = []\<rparr>"
  by (simp add: askForVersionsPrompt_def generateModuleVersionQuestion_choices_def)

lemma sortVersionsByAnswer_All:
  assumes "hasConflict grp" and "modules grp \<noteq> []"
    and "\<forall>g\<in>set (modules grp). packageName g \<noteq> ''All''"
  shows "sortVersionsByAnswer grp (filter (\<lambda>n. n \<noteq> ''All'') (map packageName (modules grp)))
         = Inr \<lparr>keep = new_Set (map Some (modules grp)), ignore = []\<rparr>"
proof -
  let ?sel = "filter (\<lambda>n. n \<noteq> ''All'') (map packageName (modules grp))"
  have sel: "?sel = map packageName (modules grp)"
    using assms(3) by (intro filter_True) auto
  have k: "findGirModuleByFullNames (modules grp) ?sel = modules grp"
    unfolding sel findGirModuleByFullNames_def by (intro filter_True) auto
  have i: "filter (\<lambda>name. name \<notin> set ?sel) (map packageName (modules grp)) = []"
    unfolding sel by (intro filter_False) auto
  show ?thesis
    using assms(1,2) unfolding sortVersionsByAnswer_def k i Let_def new_Set_def by simp
qed

text \<open>
  Claim C4. In a conflicted group (two or more members that are not ignored, none of
  them named \<open>All\<close>), the answer \<open>All\<close> followed by a confirming answer yields
  \<open>selected\<close> = every member's package name and \<open>unselected\<close> = \<open>[]\<close>;
  \<open>sortVersionsByAnswer\<close> then keeps every member and ignores nothing, so the loop goes
  on to the next group with every member added to \<open>keep\<close> and \<open>ignore\<close> unchanged.
\<close>

theorem all_keeps_every_member:
  assumes "st_answers st = ''All'' # b # answers" and "b \<noteq> ''Go back''"
    and "members = filter (\<lambda>g. packageName g \<notin> set (st_ignore st)) (modules grp)"
    and "2 \<le> length members"
    and "\<forall>g\<in>set members. packageName g \<noteq> ''All''"
  shows "askForVersionsPrompt (grp\<lparr>modules := members, hasConflict := True\<rparr>) ''All''
           = Inr \<lparr>selected = map packageName members, unselected = []\<rparr>
       \<and> sortVersionsByAnswer (grp\<lparr>modules := members, hasConflict := True\<rparr>) (map packageName members)
           = Inr \<lparr>keep = new_Set (map Some members), ignore = []\<rparr>
       \<and> askForEach_for visited st ((key, grp) # rest)
           = askForEach_for (visited @ [(key, grp\<lparr>modules := members, hasConflict := True\<rparr>)])
               \<lparr>st_keep = union_set (st_keep st) (new_Set (map Some members)),
                st_ignore = st_ignore st, st_answers = answers\<rparr> rest
       \<and> set (union_set (st_keep st) (new_Set (map Some members))) = set (st_keep st) \<union> Some ` set members"
proof -
  let ?grp = "grp\<lparr>modules := members, hasConflict := True\<rparr>"
  have sel: "filter (\<lambda>n. n \<noteq> ''All'') (map packageName members) = map packageName members"
    using assms(5) by (intro filter_True) auto
  have 1: "askForVersionsPrompt ?grp ''All''
           = Inr \<lparr>selected = map packageName members, unselected = []\<rparr>"
    using askForVersionsPrompt_All [of ?grp] sel by simp
  have ne: "members \<noteq> []" using assms(4) by auto
  have 2: "sortVersionsByAnswer ?grp (map packageName members)
           = Inr \<lparr>keep = new_Set (map Some members), ignore = []\<rparr>"
    using sortVersionsByAnswer_All [of ?grp] ne assms(5) sel by simp
  have loop: "version_loop (visited @ (key, ?grp) # rest) (st_ignore st) ?grp (st_answers st)
        = Returns (\<lparr>selected = map packageName members, unselected = []\<rparr>, b, [], answers)"
    using assms(1,2) 1 by (simp add: findModulesDependOnPackages_Nil)
  have 3: "askForEach_for visited st ((key, grp) # rest)
           = askForEach_for (visited @ [(key, ?grp)])
               \<lparr>st_keep = union_set (st_keep st) (new_Set (map Some members)),
                st_ignore = st_ignore st, st_answers = answers\<rparr> rest"
    using assms(3,4) ne loop 2 by (simp add: Let_def)
  have 4: "set (union_set (st_keep st) (new_Set (map Some members))) = set (st_keep st) \<union> Some ` set members"
    by (simp add: set_union_set set_new_Set)
  from 1 2 3 4 show ?thesis by blast
qed

text \<open>C4 on a group of three versions of \<open>Gtk\<close>, answered \<open>All\<close>, \<open>Yes\<close>.\<close>

theorem all_keeps_every_member_witness:
  "askForEach_for []
     \<lparr>st_keep = [], st_ignore = [], st_answers = [''All'', ''Yes'']\<rparr>
     [(''gtk'', \<lparr>namespace = ''Gtk'',
        modules = [\<lparr>packageName = ''Gtk-3.0'',
                    module = \<lparr>packageName = ''Gtk-3.0'', dependencies = [], transitiveDependencies = []\<rparr>,
                    resolvedBy = BY_HAND\<rparr>,
                  \<lparr>packageName = ''Gtk-4.0'',
                    module = \<lparr>packageName = ''Gtk-4.0'', dependencies = [], transitiveDependencies = []\<rparr>,
                    resolvedBy = BY_HAND\<rparr>,
                  \<lparr>packageName = ''Gtk-5.0'',
                    module = \<lparr>packageName = ''Gtk-5.0'', dependencies = [], transitiveDependencies = []\<rparr>,
                    resolvedBy = BY_HAND\<rparr>],
        hasConflict = True\<rparr>)]
   = Returns
      ([(''gtk'', \<lparr>namespace = ''Gtk'',
        modules = [\<lparr>packageName = ''Gtk-3.0'',
                    module = \<lparr>packageName = ''Gtk-3.0'', dependencies = [], transitiveDependencies = []\<rparr>,
                    resolvedBy = BY_HAND\<rparr>,
                  \<lparr>packageName = ''Gtk-4.0'',
                    module = \<lparr>packageName = ''Gtk-4.0'', dependencies = [], transitiveDependencies = []\<rparr>,
                    resolvedBy = BY_HAND\<rparr>,
                  \<lparr>packageName = ''Gtk-5.0'',
                    module = \<lparr>packageName = ''Gtk-5.0'', dependencies = [], transitiveDependencies = []\<rparr>,
                    resolvedBy = BY_HAND\<rparr>],
        hasConflict = True\<rparr>)],
       \<lparr>st_keep = [Some \<lparr>packageName = ''Gtk-3.0'',
                    module = \<lparr>packageName = ''Gtk-3.0'', dependencies = [], transitiveDependencies = []\<rparr>,
                    resolvedBy = BY_HAND\<rparr>,
                  Some \<lparr>packageName = ''Gtk-4.0'',
                    module = \<lparr>packageName = ''Gtk-4.0'', dependencies = [], transitiveDependencies = []\<rparr>,
                    resolvedBy = BY_HAND\<rparr>,
                  Some \<lparr>packageName = ''Gtk-5.0'',
                    module = \<lparr>packageName = ''Gtk-5.0'', dependencies = [], transitiveDependencies = []\<rparr>,
                    resolvedBy = BY_HAND\<rparr>],
         st_ignore = [], st_answers = []\<rparr>)"
proof -
  let ?g = "\<lambda>n. \<lparr>packageName = n,
          module = \<lparr>packageName = n, dependencies = [], transitiveDependencies = []\<rparr>,
          resolvedBy = BY_HAND\<rparr>"
  let ?members = "[?g ''Gtk-3.0'', ?g ''Gtk-4.0'', ?g ''Gtk-5.0'']"
  let ?grp = "\<lparr>namespace = ''Gtk'', modules = ?members, hasConflict = True\<rparr>"
  let ?st = "\<lparr>st_keep = [], st_ignore = [], st_answers = [''All'', ''Yes'']\<rparr>"
  have "askForEach_for [] ?st ((''gtk'', ?grp) # [])
           = askForEach_for ([] @ [(''gtk'', ?grp\<lparr>modules := ?members, hasConflict := True\<rparr>)])
               \<lparr>st_keep = union_set (st_keep ?st) (new_Set (map Some ?members)),
                st_ignore = st_ignore ?st, st_answers = []\<rparr> []"
    using all_keeps_every_member [of ?st "''Yes''" "[]" ?members ?grp "[]" "''gtk''" "[]",
        THEN conjunct2, THEN conjunct2, THEN conjunct1]
    by (simp del: askForEach_for.simps)
  also have "\<dots> = Returns ([(''gtk'', ?grp)],
       \<lparr>st_keep = map Some ?members, st_ignore = [], st_answers = []\<rparr>)"
    by (simp add: union_set_def new_Set_def set_add_def)
  finally show ?thesis by (simp del: askForEach_for.simps)
qed

lemma sortVersionsByAnswer_throws_iff:
  "sortVersionsByAnswer grp sel = Inl e \<longleftrightarrow>
     e = Error ''Module not found!'' \<and> hasConflict grp
     \<and> (\<forall>g\<in>set (modules grp). packageName g \<notin> set sel)"
  by (auto simp: sortVersionsByAnswer_def findGirModuleByFullNames_def Let_def filter_empty_conv)

text \<open>
  Claim C5. \<open>sortVersionsByAnswer\<close> throws \<open>Module not found!\<close> when the group is
  conflicted and the selected names match none of its members, and returns without error
  in every other case. The exception is not caught. Wherever the loop of
  \<open>askForEachConflictVersionsPrompt\<close> stands (whatever groups it has visited, whatever
  \<open>keep\<close> and \<open>ignore\<close> hold), a group with two or more members left whose version
  answer is not one of the choices ends the loop with that exception; so does, more
  generally, any confirmed version answer (after any number of rounds) that selects no
  member. A run of \<open>askForEachConflictVersionsPrompt\<close> that reaches such a group ends with
  that exception as a whole.
\<close>

theorem module_not_found_aborts:
  "(hasConflict grp \<and> (\<forall>g\<in>set (modules grp). packageName g \<notin> set sel) \<longrightarrow>
      sortVersionsByAnswer grp sel = Inl (Error ''Module not found!''))
   \<and> (\<not> (hasConflict grp \<and> (\<forall>g\<in>set (modules grp). packageName g \<notin> set sel)) \<longrightarrow>
      (\<exists>r. sortVersionsByAnswer grp sel = Inr r))
   \<and> (2 \<le> length (filter (\<lambda>g. packageName g \<notin> set (st_ignore st)) (modules grp))
       \<and> st_answers st = a # b # answers
       \<and> a \<noteq> [] \<and> a \<noteq> ''All'' \<and> a \<notin> packageName ` set (modules grp) \<and> b \<noteq> ''Go back'' \<longrightarrow>
      askForEach_for visited st ((key, grp) # rest) = Throws (Error ''Module not found!''))
   \<and> (2 \<le> length (filter (\<lambda>g. packageName g \<notin> set (st_ignore st)) (modules grp))
       \<and> version_loop
           (visited @ (key, grp\<lparr>modules := filter (\<lambda>g. packageName g \<notin> set (st_ignore st)) (modules grp),
                                 hasConflict := True\<rparr>) # rest)
           (st_ignore st)
           (grp\<lparr>modules := filter (\<lambda>g. packageName g \<notin> set (st_ignore st)) (modules grp),
                 hasConflict := True\<rparr>)
           (st_answers st)
         = Returns (versionAnswer, ignoreDepsAnswer, wouldIgnoreDeps, answers')
       \<and> (\<forall>g\<in>set (modules grp).
             packageName g \<notin> set (st_ignore st) \<longrightarrow> packageName g \<notin> set (selected versionAnswer)) \<longrightarrow>
      askForEach_for visited st ((key, grp) # rest) = Throws (Error ''Module not found!''))
   \<and> (askForEach_for [] \<lparr>st_keep = [], st_ignore = initIgnore, st_answers = initAnswers\<rparr> groups
         = askForEach_for visited st ((key, grp) # rest)
       \<and> 2 \<le> length (filter (\<lambda>g. packageName g \<notin> set (st_ignore st)) (modules grp))
       \<and> st_answers st = a # b # answers
       \<and> a \<noteq> [] \<and> a \<noteq> ''All'' \<and> a \<notin> packageName ` set (modules grp) \<and> b \<noteq> ''Go back'' \<longrightarrow>
      askForEachConflictVersionsPrompt groups initIgnore initAnswers = Throws (Error ''Module not found!''))"
proof -
  let ?members = "filter (\<lambda>g. packageName g \<notin> set (st_ignore st)) (modules grp)"
  let ?grp = "grp\<lparr>modules := ?members, hasConflict := True\<rparr>"
  have throws: "askForEach_for visited st ((key, grp) # rest) = Throws (Error ''Module not found!'')"
    if h: "2 \<le> length ?members" "st_answers st = a # b # answers"
      "a \<noteq> []" "a \<noteq> ''All''" "a \<notin> packageName ` set (modules grp)" "b \<noteq> ''Go back''"
  proof -
    have ask: "askForVersionsPrompt ?grp a
        = Inr \<lparr>selected = [a], unselected = filter (\<lambda>c. c \<noteq> a) (''All'' # map packageName ?members)\<rparr>"
      using h by (simp add: askForVersionsPrompt_def generateModuleVersionQuestion_choices_def)
    have "\<forall>g\<in>set (modules ?grp). packageName g \<notin> set [a]"
      using h by auto
    then have sort: "sortVersionsByAnswer ?grp [a] = Inl (Error ''Module not found!'')"
      by (simp add: sortVersionsByAnswer_throws_iff)
    have ne: "?members \<noteq> []" using h by auto
    show ?thesis
      using h ne ask sort by (simp add: Let_def)
  qed
  have general: "askForEach_for visited st ((key, grp) # rest) = Throws (Error ''Module not found!'')"
    if h: "2 \<le> length ?members"
      "version_loop (visited @ (key, ?grp) # rest) (st_ignore st) ?grp (st_answers st)
         = Returns (versionAnswer, ignoreDepsAnswer, wouldIgnoreDeps, answers')"
      "\<forall>g\<in>set (modules grp).
             packageName g \<notin> set (st_ignore st) \<longrightarrow> packageName g \<notin> set (selected versionAnswer)"
  proof -
    have "\<forall>g\<in>set (modules ?grp). packageName g \<notin> set (selected versionAnswer)"
      using h(3) by auto
    then have sort: "sortVersionsByAnswer ?grp (selected versionAnswer) = Inl (Error ''Module not found!'')"
      by (simp add: sortVersionsByAnswer_throws_iff)
    have ne: "?members \<noteq> []" using h by auto
    show ?thesis
      using h(1,2) ne sort by (simp add: Let_def del: version_loop.simps)
  qed
  show ?thesis
  proof (intro conjI impI)
    assume "hasConflict grp \<and> (\<forall>g\<in>set (modules grp). packageName g \<notin> set sel)"
    then show "sortVersionsByAnswer grp sel = Inl (Error ''Module not found!'')"
      by (simp add: sortVersionsByAnswer_throws_iff)
  next
    assume "\<not> (hasConflict grp \<and> (\<forall>g\<in>set (modules grp). packageName g \<notin> set sel))"
    then have "\<forall>e. sortVersionsByAnswer grp sel \<noteq> Inl e"
      by (simp add: sortVersionsByAnswer_throws_iff)
    then show "\<exists>r. sortVersionsByAnswer grp sel = Inr r"
      by (cases "sortVersionsByAnswer grp sel") auto
  next
    assume "2 \<le> length ?members \<and> st_answers st = a # b # answers
       \<and> a \<noteq> [] \<and> a \<noteq> ''All'' \<and> a \<notin> packageName ` set (modules grp) \<and> b \<noteq> ''Go back''"
    then show "askForEach_for visited st ((key, grp) # rest) = Throws (Error ''Module not found!'')"
      using throws by blast
  next
    assume "2 \<le> length ?members
       \<and> version_loop (visited @ (key, ?grp) # rest) (st_ignore st) ?grp (st_answers st)
         = Returns (versionAnswer, ignoreDepsAnswer, wouldIgnoreDeps, answers')
       \<and> (\<forall>g\<in>set (modules grp).
             packageName g \<notin> set (st_ignore st) \<longrightarrow> packageName g \<notin> set (selected versionAnswer))"
    then show "askForEach_for visited st ((key, grp) # rest) = Throws (Error ''Module not found!'')"
      using general by blast
  next
    assume h: "askForEach_for [] \<lparr>st_keep = [], st_ignore = initIgnore, st_answers = initAnswers\<rparr> groups
         = askForEach_for visited st ((key, grp) # rest)
       \<and> 2 \<le> length ?members \<and> st_answers st = a # b # answers
       \<and> a \<noteq> [] \<and> a \<noteq> ''All'' \<and> a \<notin> packageName ` set (modules grp) \<and> b \<noteq> ''Go back''"
    then have "askForEach_for visited st ((key, grp) # rest) = Throws (Error ''Module not found!'')"
      using throws by blast
    with h show "askForEachConflictVersionsPrompt groups initIgnore initAnswers = Throws (Error ''Module not found!'')"
      by (simp add: askForEachConflictVersionsPrompt_def del: askForEach_for.simps)
  qed
qed

text \<open>
  C5 on a group of two versions of \<open>Gtk\<close> and the selection \<open>Gtk-2.0\<close>, met as the second
  group of the map, after \<open>Gdk\<close>; once answered at the first prompt, once after a round
  that was taken back.
\<close>

theorem module_not_found_aborts_witness:
  "sortVersionsByAnswer
     \<lparr>namespace = ''Gtk'',
      modules = [\<lparr>packageName = ''Gtk-3.0'',
                  module = \<lparr>packageName = ''Gtk-3.0'', dependencies = [], transitiveDependencies = []\<rparr>,
                  resolvedBy = BY_HAND\<rparr>,
                \<lparr>packageName = ''Gtk-4.0'',
                  module = \<lparr>packageName = ''Gtk-4.0'', dependencies = [], transitiveDependencies = []\<rparr>,
                  resolvedBy = BY_HAND\<rparr>],
      hasConflict = True\<rparr> [''Gtk-2.0''] = Inl (Error ''Module not found!'')
   \<and> (\<exists>r. sortVersionsByAnswer
     \<lparr>namespace = ''Gtk'',
      modules = [\<lparr>packageName = ''Gtk-3.0'',
                  module = \<lparr>packageName = ''Gtk-3.0'', dependencies = [], transitiveDependencies = []\<rparr>,
                  resolvedBy = BY_HAND\<rparr>,
                \<lparr>packageName = ''Gtk-4.0'',
                  module = \<lparr>packageName = ''Gtk-4.0'', dependencies = [], transitiveDependencies = []\<rparr>,
                  resolvedBy = BY_HAND\<rparr>],
      hasConflict = True\<rparr> [''Gtk-4.0''] = Inr r)
   \<and> askForEachConflictVersionsPrompt
       [(''gdk'', \<lparr>namespace = ''Gdk'',
      modules = [\<lparr>packageName = ''Gdk-3.0'',
                  module = \<lparr>packageName = ''Gdk-3.0'', dependencies = [], transitiveDependencies = []\<rparr>,
                  resolvedBy = BY_HAND\<rparr>],
      hasConflict = False\<rparr>),
        (''gtk'', \<lparr>namespace = ''Gtk'',
      modules = [\<lparr>packageName = ''Gtk-3.0'',
                  module = \<lparr>packageName = ''Gtk-3.0'', dependencies = [], transitiveDependencies = []\<rparr>,
                  resolvedBy = BY_HAND\<rparr>,
                \<lparr>packageName = ''Gtk-4.0'',
                  module = \<lparr>packageName = ''Gtk-4.0'', dependencies = [], transitiveDependencies = []\<rparr>,
                  resolvedBy = BY_HAND\<rparr>],
      hasConflict = True\<rparr>)] [] [''Gtk-2.0'', ''Yes''] = Throws (Error ''Module not found!'')
   \<and> askForEachConflictVersionsPrompt
       [(''gdk'', \<lparr>namespace = ''Gdk'',
      modules = [\<lparr>packageName = ''Gdk-3.0'',
                  module = \<lparr>packageName = ''Gdk-3.0'', dependencies = [], transitiveDependencies = []\<rparr>,
                  resolvedBy = BY_HAND\<rparr>],
      hasConflict = False\<rparr>),
        (''gtk'', \<lparr>namespace = ''Gtk'',
      modules = [\<lparr>packageName = ''Gtk-3.0'',
                  module = \<lparr>packageName = ''Gtk-3.0'', dependencies = [], transitiveDependencies = []\<rparr>,
                  resolvedBy = BY_HAND\<rparr>,
                \<lparr>packageName = ''Gtk-4.0'',
                  module = \<lparr>packageName = ''Gtk-4.0'', dependencies = [], transitiveDependencies = []\<rparr>,
                  resolvedBy = BY_HAND\<rparr>],
      hasConflict = True\<rparr>)] [] [''Gtk-3.0'', ''Go back'', ''Gtk-2.0'', ''Yes'']
      = Throws (Error ''Module not found!'')"
proof -
  let ?g = "\<lambda>n. \<lparr>packageName = n,
          module = \<lparr>packageName = n, dependencies = [], transitiveDependencies = []\<rparr>,
          resolvedBy = BY_HAND\<rparr>"
  let ?grp = "\<lparr>namespace = ''Gtk'', modules = [?g ''Gtk-3.0'', ?g ''Gtk-4.0''], hasConflict = True\<rparr>"
  let ?gdk = "\<lparr>namespace = ''Gdk'', modules = [?g ''Gdk-3.0''], hasConflict = False\<rparr>"
  let ?st = "\<lambda>answers. \<lparr>st_keep = [Some (?g ''Gdk-3.0'')], st_ignore = [], st_answers = answers\<rparr>"
  have 1: "sortVersionsByAnswer ?grp [''Gtk-2.0''] = Inl (Error ''Module not found!'')"
    using module_not_found_aborts [of ?grp "[''Gtk-2.0'']"] by simp
  have 2: "\<exists>r. sortVersionsByAnswer ?grp [''Gtk-4.0''] = Inr r"
    using module_not_found_aborts [of ?grp "[''Gtk-4.0'']"] by simp
  have reach: "askForEach_for [] \<lparr>st_keep = [], st_ignore = [], st_answers = answers\<rparr>
                 [(''gdk'', ?gdk), (''gtk'', ?grp)]
               = askForEach_for [(''gdk'', ?gdk)] (?st answers) [(''gtk'', ?grp)]" for answers
    by (subst askForEach_for.simps) (simp add: Let_def union_set_def set_add_def del: askForEach_for.simps)
  have 3: "askForEachConflictVersionsPrompt [(''gdk'', ?gdk), (''gtk'', ?grp)] [] [''Gtk-2.0'', ''Yes'']
        = Throws (Error ''Module not found!'')"
    using module_not_found_aborts [where grp = ?grp and st = "?st [''Gtk-2.0'', ''Yes'']"
        and a = "''Gtk-2.0''" and b = "''Yes''" and answers = "[]" and visited = "[(''gdk'', ?gdk)]"
        and key = "''gtk''" and rest = "[]" and initIgnore = "[]" and initAnswers = "[''Gtk-2.0'', ''Yes'']"
        and groups = "[(''gdk'', ?gdk), (''gtk'', ?grp)]", THEN conjunct2, THEN conjunct2,
        THEN conjunct2, THEN conjunct2]
      reach [of "[''Gtk-2.0'', ''Yes'']"]
    by (simp del: askForEach_for.simps)
  let ?grp' = "?grp\<lparr>modules := filter (\<lambda>g. packageName g \<notin> set []) (modules ?grp), hasConflict := True\<rparr>"
  have loop: "version_loop ([(''gdk'', ?gdk)] @ (''gtk'', ?grp') # []) [] ?grp'
                [''Gtk-3.0'', ''Go back'', ''Gtk-2.0'', ''Yes'']
              = Returns (\<lparr>selected = [''Gtk-2.0''], unselected = [''All'', ''Gtk-3.0'', ''Gtk-4.0'']\<rparr>,
                         ''Yes'', [], [])"
    by (simp add: askForVersionsPrompt_def generateModuleVersionQuestion_choices_def Let_def
        findModulesDependOnPackages_def findModulesDependOnPackage_def)
  have "askForEach_for [(''gdk'', ?gdk)] (?st [''Gtk-3.0'', ''Go back'', ''Gtk-2.0'', ''Yes''])
          [(''gtk'', ?grp)] = Throws (Error ''Module not found!'')"
    using module_not_found_aborts [where grp = ?grp
        and st = "?st [''Gtk-3.0'', ''Go back'', ''Gtk-2.0'', ''Yes'']"
        and visited = "[(''gdk'', ?gdk)]" and key = "''gtk''" and rest = "[]"
        and versionAnswer = "\<lparr>selected = [''Gtk-2.0''], unselected = [''All'', ''Gtk-3.0'', ''Gtk-4.0'']\<rparr>"
        and ignoreDepsAnswer = "''Yes''" and wouldIgnoreDeps = "[]" and answers' = "[]",
        THEN conjunct2, THEN conjunct2, THEN conjunct2, THEN conjunct1] loop
    by (simp del: askForEach_for.simps version_loop.simps)
  then have 4: "askForEachConflictVersionsPrompt [(''gdk'', ?gdk), (''gtk'', ?grp)] []
        [''Gtk-3.0'', ''Go back'', ''Gtk-2.0'', ''Yes''] = Throws (Error ''Module not found!'')"
    using reach [of "[''Gtk-3.0'', ''Go back'', ''Gtk-2.0'', ''Yes'']"]
    by (simp add: askForEachConflictVersionsPrompt_def del: askForEach_for.simps)
  from 1 2 3 4 show ?thesis by blast
qed

lemma version_loop_go_back:
  assumes "a \<noteq> []"
  shows "version_loop m ig grp (a # ''Go back'' # answers) = version_loop m ig grp answers"
  using assms by (simp add: askForVersionsPrompt_def Let_def)

lemma version_loop_confirmed:
  "version_loop m ig grp answers = Returns (va, b, w, answers') \<Longrightarrow> b \<noteq> ''Go back''"
proof (induction m ig grp answers rule: version_loop.induct)
  case (1 m ig grp)
  then show ?case by simp
next
  case (2 m ig grp a)
  then show ?case by (simp split: sum.splits)
next
  case (3 m ig grp a b answers)
  then show ?case
    by (auto simp: Let_def split: sum.splits if_splits)
qed

text \<open>
  Claim C8. In the retry loop of a conflicted group, a round that ends with the answer
  \<open>Go back\<close> changes nothing: the run continues exactly as a run that starts at the same
  group with the same \<open>keep\<close>, the same \<open>ignore\<close> and the remaining answers. The loop is
  only left with an answer other than \<open>Go back\<close>, and \<open>keep\<close> and \<open>ignore\<close> are only
  written after the loop.
\<close>

theorem go_back_restarts_group:
  "(a \<noteq> [] \<and> st_answers st = a # ''Go back'' # answers
      \<and> 2 \<le> length (filter (\<lambda>g. packageName g \<notin> set (st_ignore st)) (modules grp)) \<longrightarrow>
      askForEach_for visited st ((key, grp) # rest)
        = askForEach_for visited (st\<lparr>st_answers := answers\<rparr>) ((key, grp) # rest))
   \<and> (version_loop m ig grp answers0 = Returns (va, b, w, answers') \<longrightarrow> b \<noteq> ''Go back'')"
proof (intro conjI impI)
  assume h: "a \<noteq> [] \<and> st_answers st = a # ''Go back'' # answers
      \<and> 2 \<le> length (filter (\<lambda>g. packageName g \<notin> set (st_ignore st)) (modules grp))"
  let ?members = "filter (\<lambda>g. packageName g \<notin> set (st_ignore st)) (modules grp)"
  let ?grp = "grp\<lparr>modules := ?members, hasConflict := True\<rparr>"
  let ?m = "visited @ (key, ?grp) # rest"
  from h have ne: "?members \<noteq> []" by auto
  from h have eq: "version_loop ?m (st_ignore st) ?grp (st_answers st)
      = version_loop ?m (st_ignore st) ?grp answers"
    using version_loop_go_back [of a ?m "st_ignore st" ?grp answers] by simp
  show "askForEach_for visited st ((key, grp) # rest)
        = askForEach_for visited (st\<lparr>st_answers := answers\<rparr>) ((key, grp) # rest)"
  proof (cases "version_loop ?m (st_ignore st) ?grp answers")
    case (Returns r)
    obtain va b w answers' where r: "r = (va, b, w, answers')" by (cases r) auto
    show ?thesis
      using h ne eq Returns r
      by (simp add: Let_def del: version_loop.simps split: sum.splits)
  next
    case (Throws e)
    then show ?thesis
      using h ne eq by (simp add: Let_def del: version_loop.simps)
  next
    case Pending
    then show ?thesis
      using h ne eq by (simp add: Let_def del: version_loop.simps)
  qed
next
  assume "version_loop m ig grp answers0 = Returns (va, b, w, answers')"
  then show "b \<noteq> ''Go back''" by (rule version_loop_confirmed)
qed

text \<open>
  C8 on a group of two versions of \<open>Gtk\<close>: the first round selects \<open>Gtk-4.0\<close> and is
  ended by \<open>Go back\<close>, the second selects \<open>Gtk-3.0\<close> and is confirmed. The first
  selection leaves no trace in \<open>keep\<close> or \<open>ignore\<close>.
\<close>

theorem go_back_restarts_group_witness:
  "askForEach_for []
     \<lparr>st_keep = [], st_ignore = [], st_answers = [''Gtk-4.0'', ''Go back'', ''Gtk-3.0'', ''Yes'']\<rparr>
     [(''gtk'', \<lparr>namespace = ''Gtk'',
        modules = [\<lparr>packageName = ''Gtk-3.0'',
                    module = \<lparr>packageName = ''Gtk-3.0'', dependencies = [], transitiveDependencies = []\<rparr>,
                    resolvedBy = BY_HAND\<rparr>,
                  \<lparr>packageName = ''Gtk-4.0'',
                    module = \<lparr>packageName = ''Gtk-4.0'', dependencies = [], transitiveDependencies = []\<rparr>,
                    resolvedBy = BY_HAND\<rparr>],
        hasConflict = True\<rparr>)]
   = Returns
       ([(''gtk'', \<lparr>namespace = ''Gtk'',
        modules = [\<lparr>packageName = ''Gtk-3.0'',
                    module = \<lparr>packageName = ''Gtk-3.0'', dependencies = [], transitiveDependencies = []\<rparr>,
                    resolvedBy = BY_HAND\<rparr>,
                  \<lparr>packageName = ''Gtk-4.0'',
                    module = \<lparr>packageName = ''Gtk-4.0'', dependencies = [], transitiveDependencies = []\<rparr>,
                    resolvedBy = BY_HAND\<rparr>],
        hasConflict = True\<rparr>)],
        \<lparr>st_keep = [Some \<lparr>packageName = ''Gtk-3.0'',
                    module = \<lparr>packageName = ''Gtk-3.0'', dependencies = [], transitiveDependencies = []\<rparr>,
                    resolvedBy = BY_HAND\<rparr>],
          st_ignore = [''Gtk-4.0''], st_answers = []\<rparr>)
   \<and> version_loop [] []
        \<lparr>namespace = ''Gtk'',
        modules = [\<lparr>packageName = ''Gtk-3.0'',
                    module = \<lparr>packageName = ''Gtk-3.0'', dependencies = [], transitiveDependencies = []\<rparr>,
                    resolvedBy = BY_HAND\<rparr>,
                  \<lparr>packageName = ''Gtk-4.0'',
                    module = \<lparr>packageName = ''Gtk-4.0'', dependencies = [], transitiveDependencies = []\<rparr>,
                    resolvedBy = BY_HAND\<rparr>],
        hasConflict = True\<rparr> [''Gtk-4.0'', ''Go back'', ''Gtk-3.0'', ''Yes'']
      = Returns (\<lparr>selected = [''Gtk-3.0''], unselected = [''All'', ''Gtk-4.0'']\<rparr>, ''Yes'', [], [])
   \<and> ''Yes'' \<noteq> ''Go back''"
proof -
  let ?g = "\<lambda>n. \<lparr>packageName = n,
          module = \<lparr>packageName = n, dependencies = [], transitiveDependencies = []\<rparr>,
          resolvedBy = BY_HAND\<rparr>"
  let ?grp = "\<lparr>namespace = ''Gtk'', modules = [?g ''Gtk-3.0'', ?g ''Gtk-4.0''], hasConflict = True\<rparr>"
  let ?st = "\<lparr>st_keep = [], st_ignore = [], st_answers = [''Gtk-4.0'', ''Go back'', ''Gtk-3.0'', ''Yes'']\<rparr>"
  let ?va = "\<lparr>selected = [''Gtk-3.0''], unselected = [''All'', ''Gtk-4.0'']\<rparr>"
  have "askForEach_for [] ?st [(''gtk'', ?grp)]
      = askForEach_for [] (?st\<lparr>st_answers := [''Gtk-3.0'', ''Yes'']\<rparr>) [(''gtk'', ?grp)]"
    using go_back_restarts_group [of "''Gtk-4.0''" ?st "[''Gtk-3.0'', ''Yes'']" ?grp "[]" "''gtk''" "[]",
        THEN conjunct1]
    by (simp del: askForEach_for.simps)
  also have "\<dots> = Returns ([(''gtk'', ?grp)],
        \<lparr>st_keep = [Some (?g ''Gtk-3.0'')], st_ignore = [''Gtk-4.0''], st_answers = []\<rparr>)"
    by (simp add: askForVersionsPrompt_def generateModuleVersionQuestion_choices_def
        findModulesDependOnPackages_def findModulesDependOnPackage_def sortVersionsByAnswer_def
        findGirModuleByFullNames_def union_set_def set_add_def)
  finally have 1: "askForEach_for [] ?st [(''gtk'', ?grp)] = Returns ([(''gtk'', ?grp)],
        \<lparr>st_keep = [Some (?g ''Gtk-3.0'')], st_ignore = [''Gtk-4.0''], st_answers = []\<rparr>)" .
  have 2: "version_loop [] [] ?grp [''Gtk-4.0'', ''Go back'', ''Gtk-3.0'', ''Yes'']
      = Returns (?va, ''Yes'', [], [])"
    by (simp add: askForVersionsPrompt_def generateModuleVersionQuestion_choices_def
        findModulesDependOnPackages_def findModulesDependOnPackage_def)
  from go_back_restarts_group [where m = "[]" and ig = "[]" and grp = ?grp
      and ?answers0.0 = "[''Gtk-4.0'', ''Go back'', ''Gtk-3.0'', ''Yes'']" and va = ?va
      and b = "''Yes''" and w = "[]" and answers' = "[]", THEN conjunct2] 2
  have 3: "''Yes'' \<noteq> ''Go back''" by blast
  from 1 2 3 show ?thesis by (simp del: askForEach_for.simps version_loop.simps)
qed

section \<open>Properties of the loader\<close>

lemma missing_names_append: "missing_names (xs @ ys) = missing_names xs @ missing_names ys"
  by (induction xs rule: missing_names.induct) auto

lemma missing_names_ignored [simp]:
  "missing_names (map (\<lambda>t. WARN_LOAD_IGNORED_DEPENDENCY t n) ts) = []"
  by (induction ts) auto

lemma records_newI:
  assumes "failedGirModules st' = failedGirModules st @ new" and "distinct new"
    and "set new \<inter> set (failedGirModules st) = {}"
    and "missing_names (warned st') = missing_names (warned st) @ new"
    and "packageName ` set (girModules st) \<subseteq> packageName ` set (girModules st')"
  shows "records_new st st'"
  using assms by (simp add: records_new_def)

lemma records_newE:
  assumes "records_new st st'"
  obtains new where "failedGirModules st' = failedGirModules st @ new" and "distinct new"
    and "set new \<inter> set (failedGirModules st) = {}"
    and "missing_names (warned st') = missing_names (warned st) @ new"
    and "packageName ` set (girModules st) \<subseteq> packageName ` set (girModules st')"
  using assms unfolding records_new_def Let_def by blast

lemma records_new_refl: "records_new st st"
  by (rule records_newI [where new = "[]"]) auto

lemma records_new_trans:
  assumes "records_new a b" and "records_new b c"
  shows "records_new a c"
proof -
  from assms(1) obtain n1 where 1: "failedGirModules b = failedGirModules a @ n1" "distinct n1"
    "set n1 \<inter> set (failedGirModules a) = {}"
    "missing_names (warned b) = missing_names (warned a) @ n1"
    "packageName ` set (girModules a) \<subseteq> packageName ` set (girModules b)"
    by (rule records_newE)
  from assms(2) obtain n2 where 2: "failedGirModules c = failedGirModules b @ n2" "distinct n2"
    "set n2 \<inter> set (failedGirModules b) = {}"
    "missing_names (warned c) = missing_names (warned b) @ n2"
    "packageName ` set (girModules b) \<subseteq> packageName ` set (girModules c)"
    by (rule records_newE)
  show ?thesis
  proof (rule records_newI [where new = "n1 @ n2"])
    show "failedGirModules c = failedGirModules a @ n1 @ n2" using 1 2 by simp
    show "distinct (n1 @ n2)" using 1 2 by auto
    show "set (n1 @ n2) \<inter> set (failedGirModules a) = {}" using 1 2 by auto
    show "missing_names (warned c) = missing_names (warned a) @ n1 @ n2" using 1 2 by simp
    show "packageName ` set (girModules a) \<subseteq> packageName ` set (girModules c)"
      using 1 2 by blast
  qed
qed

lemma records_new_failed_mono: "records_new st st' \<Longrightarrow> set (failedGirModules st) \<subseteq> set (failedGirModules st')"
  by (erule records_newE) auto

lemma not_exists_mono:
  "packageName ` set a \<subseteq> packageName ` set b \<Longrightarrow> \<not> existsGirModules b [n] \<Longrightarrow> \<not> existsGirModules a [n]"
proof -
  have e: "existsGirModules ms [n] \<longleftrightarrow> n \<in> packageName ` set ms" for ms
    by (auto simp: existsGirModules_def findGirModuleByFullNames_def filter_empty_conv)
  show "packageName ` set a \<subseteq> packageName ` set b \<Longrightarrow> \<not> existsGirModules b [n] \<Longrightarrow> \<not> existsGirModules a [n]"
    unfolding e by blast
qed

lemma shifted_name_nonempty: "shifted_name x \<noteq> []"
  by (simp add: shifted_name_def)

lemma while_exists:
  "existsGirModules (girModules st) [shifted_name x] \<Longrightarrow>
   loadGirModules_while sp gir rb (x # xs) st f = loadGirModules_while sp gir rb xs st f"
  using shifted_name_nonempty [of x] by (simp add: Let_def)

lemma while_missing_known:
  "\<not> existsGirModules (girModules st) [shifted_name x] \<Longrightarrow> gir (shifted_name x) = None \<Longrightarrow>
   shifted_name x \<in> set (failedGirModules st) \<Longrightarrow>
   loadGirModules_while sp gir rb (x # xs) st f = loadGirModules_while sp gir rb xs st f"
  using shifted_name_nonempty [of x] by (simp add: Let_def loadAndCreateGirModule_def)

lemma while_missing_new:
  "\<not> existsGirModules (girModules st) [shifted_name x] \<Longrightarrow> gir (shifted_name x) = None \<Longrightarrow>
   shifted_name x \<notin> set (failedGirModules st) \<Longrightarrow>
   loadGirModules_while sp gir rb (x # xs) st f =
     loadGirModules_while sp gir rb xs
       (st\<lparr>warned := warned st @ [WARN_NO_GIR_FILE_FOUND_FOR_PACKAGE (shifted_name x)],
           failedGirModules := failedGirModules st @ [shifted_name x]\<rparr>) f"
  using shifted_name_nonempty [of x] by (simp add: Let_def loadAndCreateGirModule_def)

lemma while_loaded_unnamed:
  "\<not> existsGirModules (girModules st) [shifted_name x] \<Longrightarrow> gir (shifted_name x) = Some g \<Longrightarrow>
   packageName g = [] \<Longrightarrow>
   loadGirModules_while sp gir rb (x # xs) st f =
     loadGirModules_while sp gir rb xs
       (st\<lparr>modDependencyMap := extendDependencyMapByGirModule sp (modDependencyMap st) g\<rparr>) f"
  using shifted_name_nonempty [of x] by (simp add: Let_def loadAndCreateGirModule_def)

lemma while_loaded:
  "\<not> existsGirModules (girModules st) [shifted_name x] \<Longrightarrow> gir (shifted_name x) = Some g \<Longrightarrow>
   packageName g \<noteq> [] \<Longrightarrow>
   loadGirModules_while sp gir rb (x # xs) st f =
     loadGirModules_while sp gir rb xs
       (st\<lparr>modDependencyMap := extendDependencyMapByGirModule sp (modDependencyMap st) g,
           girModules := girModules st @
             [\<lparr>packageName = packageName g, module = g, resolvedBy = rb\<rparr>]\<rparr>) True"
  using shifted_name_nonempty [of x] by (simp add: Let_def loadAndCreateGirModule_def)

lemma while_done: "loadGirModules_while sp gir rb [] st f = Inr (st, f)"
  by simp

declare loadGirModules_while.simps [simp del]

lemma while_step:
  "\<exists>st1 f1. loadGirModules_while sp gir rb (x # xs) st f = loadGirModules_while sp gir rb xs st1 f1
      \<and> records_new st st1
      \<and> (gir (shifted_name x) = None \<and> \<not> existsGirModules (girModules st) [shifted_name x]
            \<longrightarrow> shifted_name x \<in> set (failedGirModules st1))"
proof -
  let ?n = "shifted_name x"
  consider (loaded) "existsGirModules (girModules st) [?n]"
    | (known) "\<not> existsGirModules (girModules st) [?n]" "gir ?n = None" "?n \<in> set (failedGirModules st)"
    | (new) "\<not> existsGirModules (girModules st) [?n]" "gir ?n = None" "?n \<notin> set (failedGirModules st)"
    | (unnamed) g where "\<not> existsGirModules (girModules st) [?n]" "gir ?n = Some g" "packageName g = []"
    | (found) g where "\<not> existsGirModules (girModules st) [?n]" "gir ?n = Some g" "packageName g \<noteq> []"
    by (cases "gir ?n") auto
  then show ?thesis
  proof cases
    case loaded
    show ?thesis
      by (rule exI [of _ st], rule exI [of _ f])
        (simp add: while_exists [where st = st and x = x, OF loaded] records_new_refl loaded)
  next
    case known
    show ?thesis
      by (rule exI [of _ st], rule exI [of _ f])
        (simp add: while_missing_known [where gir = gir and st = st and x = x, OF known] records_new_refl known)
  next
    case new
    let ?st1 = "st\<lparr>warned := warned st @ [WARN_NO_GIR_FILE_FOUND_FOR_PACKAGE ?n],
                   failedGirModules := failedGirModules st @ [?n]\<rparr>"
    have "records_new st ?st1"
      using new(3) by (intro records_newI [where new = "[?n]"]) (simp_all add: missing_names_append)
    then show ?thesis
      by (intro exI [of _ ?st1] exI [of _ f]) (simp add: while_missing_new [where gir = gir and st = st and x = x, OF new])
  next
    case unnamed
    let ?st1 = "st\<lparr>modDependencyMap := extendDependencyMapByGirModule sp (modDependencyMap st) g\<rparr>"
    have "records_new st ?st1"
      by (intro records_newI [where new = "[]"]) simp_all
    then show ?thesis
      by (intro exI [of _ ?st1] exI [of _ f]) (simp add: while_loaded_unnamed [where gir = gir and st = st and x = x, OF unnamed] unnamed(2))
  next
    case found
    let ?st1 = "st\<lparr>modDependencyMap := extendDependencyMapByGirModule sp (modDependencyMap st) g,
           girModules := girModules st @
             [\<lparr>packageName = packageName g, module = g, resolvedBy = rb\<rparr>]\<rparr>"
    have "records_new st ?st1"
      by (intro records_newI [where new = "[]"]) (simp_all add: subset_insertI)
    then show ?thesis
      by (intro exI [of _ ?st1] exI [of _ True]) (simp add: while_loaded [where gir = gir and st = st and x = x, OF found] found(2))
  qed
qed

lemma loadGirModules_while_records:
  "\<exists>st' found. loadGirModules_while sp gir rb toRead st f = Inr (st', found)
      \<and> records_new st st' \<and> missing_recorded gir toRead st'"
proof (induction toRead arbitrary: st f)
  case Nil
  show ?case by (simp add: while_done records_new_refl missing_recorded_def)
next
  case (Cons x toRead)
  let ?n = "shifted_name x"
  from while_step [of sp gir rb x toRead st f]
  obtain st1 f1 where s1: "loadGirModules_while sp gir rb (x # toRead) st f
                  = loadGirModules_while sp gir rb toRead st1 f1"
    and r1: "records_new st st1"
    and m1: "gir ?n = None \<and> \<not> existsGirModules (girModules st) [?n]
                    \<longrightarrow> ?n \<in> set (failedGirModules st1)"
    by blast
  from Cons.IH [of st1 f1] obtain st' found where
    s2: "loadGirModules_while sp gir rb toRead st1 f1 = Inr (st', found)"
    and r2: "records_new st1 st'" and m2: "missing_recorded gir toRead st'"
    by blast
  have r: "records_new st st'" using r1 r2 by (rule records_new_trans)
  have "gir ?n = None \<and> \<not> existsGirModules (girModules st') [?n] \<longrightarrow> ?n \<in> set (failedGirModules st')"
  proof
    assume h: "gir ?n = None \<and> \<not> existsGirModules (girModules st') [?n]"
    from r have "packageName ` set (girModules st) \<subseteq> packageName ` set (girModules st')"
      by (rule records_newE)
    with h have "\<not> existsGirModules (girModules st) [?n]"
      using not_exists_mono [of "girModules st" "girModules st'" ?n] by blast
    with h m1 have "?n \<in> set (failedGirModules st1)" by simp
    with records_new_failed_mono [OF r2] show "?n \<in> set (failedGirModules st')" by auto
  qed
  with m2 have "missing_recorded gir (x # toRead) st'"
    by (simp add: missing_recorded_def)
  with r have "records_new st st' \<and> missing_recorded gir (x # toRead) st'" by simp
  with s1 s2 show ?case by simp
qed

lemma missing_recorded_mono:
  assumes "records_new a b" and "missing_recorded gir xs a"
  shows "missing_recorded gir xs b"
  unfolding missing_recorded_def
proof (intro ballI impI)
  fix x
  assume x: "x \<in> set xs"
    and h: "gir (shifted_name x) = None \<and> \<not> existsGirModules (girModules b) [shifted_name x]"
  from assms(1) have "packageName ` set (girModules a) \<subseteq> packageName ` set (girModules b)"
    by (rule records_newE)
  with h have "\<not> existsGirModules (girModules a) [shifted_name x]"
    using not_exists_mono [of "girModules a" "girModules b" "shifted_name x"] by blast
  with assms(2) x h have "shifted_name x \<in> set (failedGirModules a)"
    by (auto simp: missing_recorded_def)
  with records_new_failed_mono [OF assms(1)] show "shifted_name x \<in> set (failedGirModules b)"
    by auto
qed

lemma packageName_module_update [simp]:
  "packageName (module_update f (x :: GirModuleResolvedBy)) = packageName x"
  by (cases x) simp

lemma setTraverse_names:
  "packageName ` set (setTraverseDependenciesForModules m gs) = packageName ` set gs"
  by (simp add: setTraverseDependenciesForModules_def image_image del: traverseDependencies.simps)

lemma records_new_setTraverse:
  "records_new st (st\<lparr>girModules := setTraverseDependenciesForModules m (girModules st)\<rparr>)"
  by (rule records_newI [where new = "[]"]) (simp_all add: setTraverse_names)

lemma records_new_ignored_warnings:
  "records_new st (st\<lparr>warned := warned st @ map (\<lambda>t. WARN_LOAD_IGNORED_DEPENDENCY t n) ts\<rparr>)"
  by (rule records_newI [where new = "[]"]) (simp_all add: missing_names_append)

lemma loadGirModules_records:
  "loadGirModules fuel sp gir toRead ign rb st = Some r \<Longrightarrow>
     \<exists>st'. r = Inr st' \<and> records_new st st'"
  "loadGirModules_for fuel sp gir ign i st = Some r \<Longrightarrow>
     \<exists>st'. r = Inr st' \<and> records_new st st'"
proof (induction fuel sp gir toRead ign rb st and fuel sp gir ign i st arbitrary: r and r
    rule: loadGirModules_loadGirModules_for.induct)
  case (1 sp gir toRead ign rb st)
  then show ?case by simp
next
  case (2 fuel sp gir toRead ign rb st)
  from loadGirModules_while_records [of sp gir rb toRead st False]
  obtain st1 found where w: "loadGirModules_while sp gir rb toRead st False = Inr (st1, found)"
    and r1: "records_new st st1" by blast
  show ?case
  proof (cases found)
    case False
    with w "2.prems" r1 show ?thesis by auto
  next
    case True
    let ?st2 = "st1\<lparr>girModules := setTraverseDependenciesForModules (modDependencyMap st1) (girModules st1)\<rparr>"
    from w True "2.prems"
    have "loadGirModules_for fuel sp gir ign 0 ?st2 = Some r" by simp
    from "2.IH" [OF w refl _ this] True
    obtain st' where "r = Inr st'" "records_new ?st2 st'" by auto
    with r1 records_new_setTraverse [of st1 "modDependencyMap st1"] show ?thesis
      by (blast intro: records_new_trans)
  qed
next
  case (3 sp gir ign i st)
  then show ?case by simp
next
  case (4 fuel sp gir ign i st)
  show ?case
  proof (cases "i < length (girModules st)")
    case False
    with "4.prems" show ?thesis by (auto simp: records_new_refl)
  next
    case True
    let ?g = "girModules st ! i"
    let ?td = "transitiveDependencies (module ?g)"
    show ?thesis
    proof (cases "0 < length ?td")
      case False
      with True "4.prems" have "loadGirModules_for fuel sp gir ign (Suc i) st = Some r"
        by (simp add: Let_def)
      from "4.IH"(3) [OF True refl refl _ this] False show ?thesis by simp
    next
      case nonempty: True
      let ?st1 = "st\<lparr>warned := warned st @
                     map (\<lambda>t. WARN_LOAD_IGNORED_DEPENDENCY t (packageName ?g))
                       (filter (\<lambda>t. t \<in> set ign) ?td)\<rparr>"
      have r1: "records_new st ?st1" by (rule records_new_ignored_warnings)
      from True nonempty "4.prems"
      obtain r2 where c: "loadGirModules fuel sp gir ?td ign DEPENDENCE ?st1 = Some r2"
        by (auto simp: Let_def split: option.splits)
      from "4.IH"(1) [OF True refl refl nonempty refl c]
      obtain st2 where r2: "r2 = Inr st2" "records_new ?st1 st2" by blast
      with True nonempty "4.prems" c
      have l: "loadGirModules_for fuel sp gir ign (Suc i) st2 = Some r"
        by (simp add: Let_def)
      from "4.IH"(2) [OF True refl refl nonempty refl c [unfolded r2(1)] refl l]
      obtain st' where "r = Inr st'" "records_new st2 st'" by blast
      with r1 r2 show ?thesis by (blast intro: records_new_trans)
    qed
  qed
qed

lemma loadGirModules_missing_recorded:
  assumes "loadGirModules fuel sp gir toRead ign rb st = Some r"
  shows "\<exists>st'. r = Inr st' \<and> records_new st st' \<and> missing_recorded gir toRead st'"
proof (cases fuel)
  case 0
  with assms show ?thesis by simp
next
  case (Suc n)
  from loadGirModules_while_records [of sp gir rb toRead st False]
  obtain st1 found where w: "loadGirModules_while sp gir rb toRead st False = Inr (st1, found)"
    and r1: "records_new st st1" and m1: "missing_recorded gir toRead st1" by blast
  show ?thesis
  proof (cases found)
    case False
    with w assms Suc r1 m1 show ?thesis by auto
  next
    case True
    let ?st2 = "st1\<lparr>girModules := setTraverseDependenciesForModules (modDependencyMap st1) (girModules st1)\<rparr>"
    from w True assms Suc
    have "loadGirModules_for n sp gir ign 0 ?st2 = Some r" by simp
    from loadGirModules_records(2) [OF this]
    obtain st' where s: "r = Inr st'" and r2: "records_new ?st2 st'" by blast
    have r12: "records_new st1 st'"
      using records_new_setTraverse [of st1 "modDependencyMap st1"] r2 by (rule records_new_trans)
    from r1 r12 have "records_new st st'" by (rule records_new_trans)
    moreover from r12 m1 have "missing_recorded gir toRead st'" by (rule missing_recorded_mono)
    ultimately show ?thesis using s by blast
  qed
qed

lemma loaded_ok_length:
  assumes "consistent_docs gir" and "loaded_ok gir st"
  shows "length (girModules st) \<le> card (dom gir)"
proof -
  have "length (girModules st) = card (packageName ` set (girModules st))"
    using assms(2) by (metis loaded_ok_def distinct_card length_map set_map)
  also have "\<dots> \<le> card (dom gir)"
    using assms by (intro card_mono) (auto simp: consistent_docs_def loaded_ok_def)
  finally show ?thesis .
qed

lemma exists_iff: "existsGirModules ms [n] \<longleftrightarrow> n \<in> packageName ` set ms"
  by (auto simp: existsGirModules_def findGirModuleByFullNames_def filter_empty_conv)

lemma while_step_ok:
  assumes "consistent_docs gir" and "loaded_ok gir st"
  shows "\<exists>st1 f1. loadGirModules_while sp gir rb (x # xs) st f = loadGirModules_while sp gir rb xs st1 f1
      \<and> loaded_ok gir st1 \<and> length (girModules st) \<le> length (girModules st1)
      \<and> (f \<longrightarrow> f1) \<and> (f1 \<and> \<not> f \<longrightarrow> length (girModules st) < length (girModules st1))"
proof -
  let ?n = "shifted_name x"
  consider (loaded) "existsGirModules (girModules st) [?n]"
    | (known) "\<not> existsGirModules (girModules st) [?n]" "gir ?n = None" "?n \<in> set (failedGirModules st)"
    | (new) "\<not> existsGirModules (girModules st) [?n]" "gir ?n = None" "?n \<notin> set (failedGirModules st)"
    | (found) g where "\<not> existsGirModules (girModules st) [?n]" "gir ?n = Some g"
    by (cases "gir ?n") auto
  then show ?thesis
  proof cases
    case loaded
    show ?thesis
      by (rule exI [of _ st], rule exI [of _ f])
        (simp add: while_exists [where st = st and x = x, OF loaded] assms)
  next
    case known
    show ?thesis
      by (rule exI [of _ st], rule exI [of _ f])
        (simp add: while_missing_known [where gir = gir and st = st and x = x, OF known] assms)
  next
    case new
    let ?st1 = "st\<lparr>warned := warned st @ [WARN_NO_GIR_FILE_FOUND_FOR_PACKAGE ?n],
                   failedGirModules := failedGirModules st @ [?n]\<rparr>"
    have "loaded_ok gir ?st1" using assms(2) by (simp add: loaded_ok_def)
    then show ?thesis
      by (intro exI [of _ ?st1] exI [of _ f])
        (simp add: while_missing_new [where gir = gir and st = st and x = x, OF new])
  next
    case found
    from assms(1) found(2) have pn: "packageName g = ?n" by (simp add: consistent_docs_def)
    then have ne: "packageName g \<noteq> []" using shifted_name_nonempty [of x] by simp
    let ?st1 = "st\<lparr>modDependencyMap := extendDependencyMapByGirModule sp (modDependencyMap st) g,
           girModules := girModules st @
             [\<lparr>packageName = packageName g, module = g, resolvedBy = rb\<rparr>]\<rparr>"
    from found(1) pn have "packageName g \<notin> packageName ` set (girModules st)"
      by (simp add: exists_iff)
    moreover from found(2) pn have "packageName g \<in> dom gir" by auto
    ultimately have "loaded_ok gir ?st1"
      using assms(2) by (simp add: loaded_ok_def)
    then show ?thesis
      by (intro exI [of _ ?st1] exI [of _ True])
        (simp add: while_loaded [where gir = gir and st = st and x = x, OF found ne])
  qed
qed

lemma while_ok:
  assumes "consistent_docs gir"
  shows "loaded_ok gir st \<Longrightarrow> loadGirModules_while sp gir rb xs st f = Inr (st', found) \<Longrightarrow>
     loaded_ok gir st' \<and> length (girModules st) \<le> length (girModules st')
     \<and> (found \<and> \<not> f \<longrightarrow> length (girModules st) < length (girModules st'))"
proof (induction xs arbitrary: st f)
  case Nil
  then show ?case by (simp add: while_done)
next
  case (Cons x xs)
  from while_step_ok [OF assms Cons.prems(1), of sp rb x xs f]
  obtain st1 f1 where s: "loadGirModules_while sp gir rb (x # xs) st f
        = loadGirModules_while sp gir rb xs st1 f1"
    and ok: "loaded_ok gir st1" and le: "length (girModules st) \<le> length (girModules st1)"
    and ff: "f \<longrightarrow> f1" and lt: "f1 \<and> \<not> f \<longrightarrow> length (girModules st) < length (girModules st1)"
    by blast
  from s Cons.prems(2) have "loadGirModules_while sp gir rb xs st1 f1 = Inr (st', found)" by simp
  from Cons.IH [OF ok this]
  have "loaded_ok gir st'" "length (girModules st1) \<le> length (girModules st')"
    "found \<and> \<not> f1 \<longrightarrow> length (girModules st1) < length (girModules st')" by auto
  with le ff lt show ?case by (cases f1) auto
qed

lemma loaded_ok_setTraverse:
  "loaded_ok gir st \<Longrightarrow>
   loaded_ok gir (st\<lparr>girModules := setTraverseDependenciesForModules m (girModules st)\<rparr>)"
  by (simp add: loaded_ok_def setTraverse_names)
    (simp add: setTraverseDependenciesForModules_def comp_def del: traverseDependencies.simps)

lemma length_setTraverse [simp]: "length (setTraverseDependenciesForModules m gs) = length gs"
  by (simp add: setTraverseDependenciesForModules_def)

lemma loadGirModules_ok:
  "loadGirModules fuel sp gir toRead ign rb st = Some (Inr st') \<Longrightarrow> loaded_ok gir st \<Longrightarrow>
     consistent_docs gir \<Longrightarrow>
     loaded_ok gir st' \<and> length (girModules st) \<le> length (girModules st')"
  "loadGirModules_for fuel sp gir ign i st = Some (Inr st') \<Longrightarrow> loaded_ok gir st \<Longrightarrow>
     consistent_docs gir \<Longrightarrow>
     loaded_ok gir st' \<and> length (girModules st) \<le> length (girModules st')"
proof (induction fuel sp gir toRead ign rb st and fuel sp gir ign i st arbitrary: st' and st'
    rule: loadGirModules_loadGirModules_for.induct)
  case (1 sp gir toRead ign rb st)
  then show ?case by simp
next
  case (2 fuel sp gir toRead ign rb st)
  from loadGirModules_while_records [of sp gir rb toRead st False]
  obtain st1 found where w: "loadGirModules_while sp gir rb toRead st False = Inr (st1, found)"
    by blast
  from while_ok [OF "2.prems"(3) "2.prems"(2) w]
  have ok1: "loaded_ok gir st1" and le1: "length (girModules st) \<le> length (girModules st1)" by auto
  show ?case
  proof (cases found)
    case False
    with w "2.prems" ok1 le1 show ?thesis by auto
  next
    case True
    let ?st2 = "st1\<lparr>girModules := setTraverseDependenciesForModules (modDependencyMap st1) (girModules st1)\<rparr>"
    from w True "2.prems"
    have l: "loadGirModules_for fuel sp gir ign 0 ?st2 = Some (Inr st')" by simp
    from "2.IH" [OF w refl _ l loaded_ok_setTraverse [OF ok1] "2.prems"(3)] True le1
    show ?thesis by simp
  qed
next
  case (3 sp gir ign i st)
  then show ?case by simp
next
  case (4 fuel sp gir ign i st)
  show ?case
  proof (cases "i < length (girModules st)")
    case False
    with "4.prems" show ?thesis by auto
  next
    case True
    let ?g = "girModules st ! i"
    let ?td = "transitiveDependencies (module ?g)"
    show ?thesis
    proof (cases "0 < length ?td")
      case False
      with True "4.prems" have "loadGirModules_for fuel sp gir ign (Suc i) st = Some (Inr st')"
        by (simp add: Let_def)
      from "4.IH"(3) [OF True refl refl _ this "4.prems"(2,3)] False show ?thesis by simp
    next
      case nonempty: True
      let ?st1 = "st\<lparr>warned := warned st @
                     map (\<lambda>t. WARN_LOAD_IGNORED_DEPENDENCY t (packageName ?g))
                       (filter (\<lambda>t. t \<in> set ign) ?td)\<rparr>"
      have ok1: "loaded_ok gir ?st1" using "4.prems"(2) by (simp add: loaded_ok_def)
      from True nonempty "4.prems"(1)
      obtain r2 where c2: "loadGirModules fuel sp gir ?td ign DEPENDENCE ?st1 = Some r2"
        by (auto simp: Let_def split: option.splits)
      from loadGirModules_records(1) [OF c2] obtain st2 where r2: "r2 = Inr st2" by blast
      from "4.IH"(1) [OF True refl refl nonempty refl c2 [unfolded r2] ok1 "4.prems"(3)]
      have ok2: "loaded_ok gir st2" and le2: "length (girModules st) \<le> length (girModules st2)"
        by auto
      from True nonempty "4.prems"(1) c2 r2
      have l: "loadGirModules_for fuel sp gir ign (Suc i) st2 = Some (Inr st')"
        by (simp add: Let_def)
      from "4.IH"(2) [OF True refl refl nonempty refl c2 [unfolded r2] refl l ok2 "4.prems"(3)] le2
      show ?thesis by simp
    qed
  qed
qed

lemma fuel_mono:
  "loadGirModules n sp gir toRead ign rb st = Some r \<Longrightarrow> n \<le> m \<Longrightarrow>
     loadGirModules m sp gir toRead ign rb st = Some r"
  "loadGirModules_for n sp gir ign i st = Some r \<Longrightarrow> n \<le> m \<Longrightarrow>
     loadGirModules_for m sp gir ign i st = Some r"
proof (induction n sp gir toRead ign rb st and n sp gir ign i st arbitrary: r m and r m
    rule: loadGirModules_loadGirModules_for.induct)
  case (1 sp gir toRead ign rb st)
  then show ?case by simp
next
  case (2 fuel sp gir toRead ign rb st)
  from "2.prems"(2) obtain m' where m: "m = Suc m'" and le: "fuel \<le> m'"
    by (cases m) auto
  from loadGirModules_while_records [of sp gir rb toRead st False]
  obtain st1 found where w: "loadGirModules_while sp gir rb toRead st False = Inr (st1, found)"
    by blast
  show ?case
  proof (cases found)
    case False
    with w "2.prems"(1) m show ?thesis by simp
  next
    case True
    let ?st2 = "st1\<lparr>girModules := setTraverseDependenciesForModules (modDependencyMap st1) (girModules st1)\<rparr>"
    from w True "2.prems"(1)
    have "loadGirModules_for fuel sp gir ign 0 ?st2 = Some r" by simp
    from "2.IH" [OF w refl _ this le] True
    have "loadGirModules_for m' sp gir ign 0 ?st2 = Some r" by simp
    with w True m show ?thesis by simp
  qed
next
  case (3 sp gir ign i st)
  then show ?case by simp
next
  case (4 fuel sp gir ign i st)
  from "4.prems"(2) obtain m' where m: "m = Suc m'" and le: "fuel \<le> m'"
    by (cases m) auto
  show ?case
  proof (cases "i < length (girModules st)")
    case False
    with "4.prems"(1) m show ?thesis by simp
  next
    case True
    let ?g = "girModules st ! i"
    let ?td = "transitiveDependencies (module ?g)"
    show ?thesis
    proof (cases "0 < length ?td")
      case False
      with True "4.prems"(1) have "loadGirModules_for fuel sp gir ign (Suc i) st = Some r"
        by (simp add: Let_def)
      from "4.IH"(3) [OF True refl refl _ this le] False
      have "loadGirModules_for m' sp gir ign (Suc i) st = Some r" by simp
      with True False m show ?thesis by (simp add: Let_def)
    next
      case nonempty: True
      let ?st1 = "st\<lparr>warned := warned st @
                     map (\<lambda>t. WARN_LOAD_IGNORED_DEPENDENCY t (packageName ?g))
                       (filter (\<lambda>t. t \<in> set ign) ?td)\<rparr>"
      from True nonempty "4.prems"(1)
      obtain r2 where c2: "loadGirModules fuel sp gir ?td ign DEPENDENCE ?st1 = Some r2"
        by (auto simp: Let_def split: option.splits)
      from loadGirModules_records(1) [OF c2] obtain st2 where r2: "r2 = Inr st2" by blast
      from "4.IH"(1) [OF True refl refl nonempty refl c2 le]
      have c2': "loadGirModules m' sp gir ?td ign DEPENDENCE ?st1 = Some (Inr st2)"
        using r2 by simp
      from True nonempty "4.prems"(1) c2 r2
      have l: "loadGirModules_for fuel sp gir ign (Suc i) st2 = Some r"
        by (simp add: Let_def)
      from "4.IH"(2) [OF True refl refl nonempty refl c2 [unfolded r2] refl l le]
      have "loadGirModules_for m' sp gir ign (Suc i) st2 = Some r" .
      with True nonempty m c2' show ?thesis by (simp add: Let_def)
    qed
  qed
qed

lemma for_converges:
  assumes c: "consistent_docs gir"
    and call: "\<And>st toRead rb. loaded_ok gir st \<Longrightarrow> card (dom gir) - length (girModules st) \<le> k \<Longrightarrow>
       \<exists>fuel st'. loadGirModules fuel sp gir toRead ign rb st = Some (Inr st')"
  shows "loaded_ok gir st \<Longrightarrow> card (dom gir) - length (girModules st) \<le> k \<Longrightarrow>
       \<exists>fuel st'. loadGirModules_for fuel sp gir ign i st = Some (Inr st')"
proof (induction i arbitrary: st rule: measure_induct_rule [where f = "\<lambda>i. card (dom gir) - i"])
  case (less i)
  show ?case
  proof (cases "i < length (girModules st)")
    case False
    then have "loadGirModules_for (Suc 0) sp gir ign i st = Some (Inr st)" by simp
    then show ?thesis by blast
  next
    case True
    from loaded_ok_length [OF c less.prems(1)] True
    have smaller: "card (dom gir) - Suc i < card (dom gir) - i" by simp
    let ?g = "girModules st ! i"
    let ?td = "transitiveDependencies (module ?g)"
    show ?thesis
    proof (cases "0 < length ?td")
      case False
      from less.IH [OF smaller less.prems]
      obtain f st' where "loadGirModules_for f sp gir ign (Suc i) st = Some (Inr st')" by blast
      with True False have "loadGirModules_for (Suc f) sp gir ign i st = Some (Inr st')"
        by (simp add: Let_def)
      then show ?thesis by blast
    next
      case nonempty: True
      let ?st1 = "st\<lparr>warned := warned st @
                     map (\<lambda>t. WARN_LOAD_IGNORED_DEPENDENCY t (packageName ?g))
                       (filter (\<lambda>t. t \<in> set ign) ?td)\<rparr>"
      have ok1: "loaded_ok gir ?st1" using less.prems(1) by (simp add: loaded_ok_def)
      have k1: "card (dom gir) - length (girModules ?st1) \<le> k" using less.prems(2) by simp
      from call [OF ok1 k1, of ?td DEPENDENCE]
      obtain f1 st2 where c1: "loadGirModules f1 sp gir ?td ign DEPENDENCE ?st1 = Some (Inr st2)"
        by blast
      from loadGirModules_ok(1) [OF c1 ok1 c]
      have ok2: "loaded_ok gir st2" and "length (girModules ?st1) \<le> length (girModules st2)"
        by auto
      with less.prems(2) have k2: "card (dom gir) - length (girModules st2) \<le> k" by simp
      from less.IH [OF smaller ok2 k2]
      obtain f2 st' where c2: "loadGirModules_for f2 sp gir ign (Suc i) st2 = Some (Inr st')"
        by blast
      have "loadGirModules (max f1 f2) sp gir ?td ign DEPENDENCE ?st1 = Some (Inr st2)"
        using fuel_mono(1) [OF c1] by simp
      moreover have "loadGirModules_for (max f1 f2) sp gir ign (Suc i) st2 = Some (Inr st')"
        using fuel_mono(2) [OF c2] by simp
      ultimately have "loadGirModules_for (Suc (max f1 f2)) sp gir ign i st = Some (Inr st')"
        using True nonempty by (simp add: Let_def)
      then show ?thesis by blast
    qed
  qed
qed

lemma loadGirModules_converges_aux:
  assumes c: "consistent_docs gir"
  shows "loaded_ok gir st \<Longrightarrow> card (dom gir) - length (girModules st) \<le> k \<Longrightarrow>
       \<exists>fuel st'. loadGirModules fuel sp gir toRead ign rb st = Some (Inr st')"
proof (induction k arbitrary: st toRead rb)
  case 0
  from loadGirModules_while_records [of sp gir rb toRead st False]
  obtain st1 found where w: "loadGirModules_while sp gir rb toRead st False = Inr (st1, found)"
    by blast
  from while_ok [OF c "0.prems"(1) w]
  have ok1: "loaded_ok gir st1"
    and lt: "found \<longrightarrow> length (girModules st) < length (girModules st1)" by auto
  from loaded_ok_length [OF c ok1] lt "0.prems"(2) have "\<not> found" by auto
  with w have "loadGirModules (Suc 0) sp gir toRead ign rb st = Some (Inr st1)" by simp
  then show ?case by blast
next
  case (Suc k)
  from loadGirModules_while_records [of sp gir rb toRead st False]
  obtain st1 found where w: "loadGirModules_while sp gir rb toRead st False = Inr (st1, found)"
    by blast
  from while_ok [OF c Suc.prems(1) w]
  have ok1: "loaded_ok gir st1"
    and lt: "found \<longrightarrow> length (girModules st) < length (girModules st1)" by auto
  show ?case
  proof (cases found)
    case False
    with w have "loadGirModules (Suc 0) sp gir toRead ign rb st = Some (Inr st1)" by simp
    then show ?thesis by blast
  next
    case True
    let ?st2 = "st1\<lparr>girModules := setTraverseDependenciesForModules (modDependencyMap st1) (girModules st1)\<rparr>"
    have ok2: "loaded_ok gir ?st2" using ok1 by (rule loaded_ok_setTraverse)
    from True lt Suc.prems(2) have k2: "card (dom gir) - length (girModules ?st2) \<le> k"
      by simp
    have "\<exists>fuel st'. loadGirModules_for fuel sp gir ign 0 ?st2 = Some (Inr st')"
    proof (rule for_converges [OF c _ ok2 k2])
      fix st toRead rb
      assume "loaded_ok gir st" and "card (dom gir) - length (girModules st) \<le> k"
      then show "\<exists>fuel st'. loadGirModules fuel sp gir toRead ign rb st = Some (Inr st')"
        by (rule Suc.IH)
    qed
    then obtain f st' where "loadGirModules_for f sp gir ign 0 ?st2 = Some (Inr st')" by blast
    with w True have "loadGirModules (Suc f) sp gir toRead ign rb st = Some (Inr st')" by simp
    then show ?thesis by blast
  qed
qed

lemma names_keys: "packageName ` set gs = fst ` set (map mod_key gs)"
  by (simp add: image_image mod_key_def)

lemma grows_refl: "grows st st"
  by (simp add: grows_def)

lemma grows_trans: "grows a b \<Longrightarrow> grows b c \<Longrightarrow> grows a c"
  unfolding grows_def by (meson prefix_order.trans subset_trans)

lemma grows_names:
  "grows st st' \<Longrightarrow> packageName ` set (girModules st) \<subseteq> packageName ` set (girModules st')"
  unfolding grows_def names_keys by (meson image_mono set_mono_prefix)

lemma handled_mono: "grows st st' \<Longrightarrow> handled st n \<Longrightarrow> handled st' n"
  using grows_names [of st st'] by (auto simp: handled_def grows_def)

lemma deps_handled_mono: "grows st st' \<Longrightarrow> deps_handled st k \<Longrightarrow> deps_handled st' k"
  by (auto simp: deps_handled_def intro: handled_mono)

lemma grows_nth:
  assumes "grows st st'" and "i < length (girModules st)"
  shows "i < length (girModules st') \<and> mod_key (girModules st' ! i) = mod_key (girModules st ! i)"
proof -
  from assms(1) obtain zs where z: "map mod_key (girModules st') = map mod_key (girModules st) @ zs"
    by (auto simp: grows_def prefix_def)
  then have "length (girModules st') = length (girModules st) + length zs"
    by (metis length_append length_map)
  with assms(2) have l: "i < length (girModules st')" by simp
  have "map mod_key (girModules st') ! i = map mod_key (girModules st) ! i"
    using z assms(2) by (simp add: nth_append)
  with l assms(2) show ?thesis by simp
qed

lemma closed_from_step:
  assumes "grows st2 st'" and "i < length (girModules st2)"
    and "deps_handled st2 (mod_key (girModules st2 ! i))" and "closed_from (Suc i) st'"
  shows "closed_from i st'"
proof -
  from grows_nth [OF assms(1,2)]
  have l: "i < length (girModules st')"
    and k: "mod_key (girModules st' ! i) = mod_key (girModules st2 ! i)" by auto
  from l have "drop i (map mod_key (girModules st'))
      = mod_key (girModules st' ! i) # drop (Suc i) (map mod_key (girModules st'))"
    by (simp add: Cons_nth_drop_Suc [symmetric])
  moreover have "deps_handled st' (mod_key (girModules st' ! i))"
    using deps_handled_mono [OF assms(1,3)] k by simp
  ultimately show ?thesis
    using assms(4) by (simp add: closed_from_def)
qed

lemma map_of_extend:
  "packageName g \<noteq> [] \<Longrightarrow>
   map_of (extendDependencyMapByGirModule sp m g)
     = (map_of m)(packageName g \<mapsto>
          map (\<lambda>name. \<lparr>packageName = name, dep_namespace = fst (sp name),
                        dep_version = snd (sp name)\<rparr>) (dependencies g))"
  by (simp add: extendDependencyMapByGirModule_def update_conv')

lemma while_step_sound:
  assumes "consistent_docs gir" and "sound_loader gir st"
  shows "\<exists>st1 f1. loadGirModules_while sp gir rb (x # xs) st f = loadGirModules_while sp gir rb xs st1 f1
      \<and> sound_loader gir st1 \<and> grows st st1 \<and> handled st1 (shifted_name x)
      \<and> (f \<longrightarrow> f1) \<and> (\<not> f1 \<longrightarrow> girModules st1 = girModules st)"
proof -
  let ?n = "shifted_name x"
  consider (loaded) "existsGirModules (girModules st) [?n]"
    | (known) "\<not> existsGirModules (girModules st) [?n]" "gir ?n = None" "?n \<in> set (failedGirModules st)"
    | (new) "\<not> existsGirModules (girModules st) [?n]" "gir ?n = None" "?n \<notin> set (failedGirModules st)"
    | (found) g where "\<not> existsGirModules (girModules st) [?n]" "gir ?n = Some g"
    by (cases "gir ?n") auto
  then show ?thesis
  proof cases
    case loaded
    then have "handled st ?n" by (simp add: handled_def exists_iff)
    then show ?thesis
      by (intro exI [of _ st] exI [of _ f])
        (simp add: while_exists [where st = st and x = x, OF loaded] assms grows_refl)
  next
    case known
    then have "handled st ?n" by (simp add: handled_def)
    then show ?thesis
      by (intro exI [of _ st] exI [of _ f])
        (simp add: while_missing_known [where gir = gir and st = st and x = x, OF known] assms grows_refl)
  next
    case new
    let ?st1 = "st\<lparr>warned := warned st @ [WARN_NO_GIR_FILE_FOUND_FOR_PACKAGE ?n],
                   failedGirModules := failedGirModules st @ [?n]\<rparr>"
    have "sound_loader gir ?st1" using assms(2) new(2) by (simp add: sound_loader_def)
    moreover have "grows st ?st1" by (auto simp: grows_def)
    moreover have "handled ?st1 ?n" by (simp add: handled_def)
    ultimately show ?thesis
      by (intro exI [of _ ?st1] exI [of _ f])
        (simp add: while_missing_new [where gir = gir and st = st and x = x, OF new])
  next
    case found
    from assms(1) found(2) have pn: "packageName g = ?n" by (simp add: consistent_docs_def)
    then have ne: "packageName g \<noteq> []" using shifted_name_nonempty [of x] by simp
    let ?new = "\<lparr>packageName = packageName g, module = g, resolvedBy = rb\<rparr>"
    let ?st1 = "st\<lparr>modDependencyMap := extendDependencyMapByGirModule sp (modDependencyMap st) g,
           girModules := girModules st @ [?new]\<rparr>"
    from found(1) pn have fresh: "packageName g \<notin> packageName ` set (girModules st)"
      by (simp add: exists_iff)
    have "sound_loader gir ?st1"
      unfolding sound_loader_def
    proof (intro conjI ballI)
      fix h assume "h \<in> set (girModules ?st1)"
      then consider "h \<in> set (girModules st)" | "h = ?new" by auto
      then show "\<exists>m. gir (packageName h) = Some m \<and> dependencies m = dependencies (module h)"
      proof cases
        case 1
        with assms(2) show ?thesis by (simp add: sound_loader_def)
      next
        case 2
        with found(2) pn show ?thesis by simp
      qed
    next
      fix h assume "h \<in> set (girModules ?st1)"
      then consider "h \<in> set (girModules st)" | "h = ?new" by auto
      then show "\<exists>deps. map_of (modDependencyMap ?st1) (packageName h) = Some deps
                  \<and> map packageName deps = dependencies (module h)"
      proof cases
        case 1
        then have "packageName h \<in> packageName ` set (girModules st)" by (rule imageI)
        with fresh have "packageName h \<noteq> packageName g" by metis
        with 1 assms(2) show ?thesis
          by (simp add: sound_loader_def map_of_extend [OF ne])
      next
        case 2
        then show ?thesis by (simp add: map_of_extend [OF ne] comp_def)
      qed
    next
      fix n assume "n \<in> set (failedGirModules ?st1)"
      with assms(2) show "gir n = None" by (simp add: sound_loader_def)
    qed
    moreover have "grows st ?st1" by (simp add: grows_def)
    moreover have "handled ?st1 ?n" using pn by (simp add: handled_def)
    ultimately show ?thesis
      by (intro exI [of _ ?st1] exI [of _ True])
        (simp add: while_loaded [where gir = gir and st = st and x = x, OF found ne])
  qed
qed

lemma while_sound:
  assumes "consistent_docs gir"
  shows "sound_loader gir st \<Longrightarrow> loadGirModules_while sp gir rb xs st f = Inr (st', found) \<Longrightarrow>
     sound_loader gir st' \<and> grows st st' \<and> (\<forall>x\<in>set xs. handled st' (shifted_name x))
     \<and> (f \<longrightarrow> found) \<and> (\<not> found \<longrightarrow> girModules st' = girModules st)"
proof (induction xs arbitrary: st f)
  case Nil
  then show ?case by (simp add: while_done grows_refl)
next
  case (Cons x xs)
  from while_step_sound [OF assms Cons.prems(1), of sp rb x xs f]
  obtain st1 f1 where s: "loadGirModules_while sp gir rb (x # xs) st f
        = loadGirModules_while sp gir rb xs st1 f1"
    and ok: "sound_loader gir st1" and g: "grows st st1" and h: "handled st1 (shifted_name x)"
    and ff: "f \<longrightarrow> f1" and same: "\<not> f1 \<longrightarrow> girModules st1 = girModules st"
    by blast
  from s Cons.prems(2) have "loadGirModules_while sp gir rb xs st1 f1 = Inr (st', found)" by simp
  from Cons.IH [OF ok this]
  have 1: "sound_loader gir st'" and 2: "grows st1 st'"
    and 3: "\<forall>x\<in>set xs. handled st' (shifted_name x)"
    and 4: "f1 \<longrightarrow> found" and 5: "\<not> found \<longrightarrow> girModules st' = girModules st1" by auto
  from g 2 have "grows st st'" by (rule grows_trans)
  moreover from 2 h have "handled st' (shifted_name x)" by (rule handled_mono)
  ultimately show ?case using 1 3 4 5 ff same by auto
qed

lemma mod_key_setTraverse [simp]:
  "map mod_key (setTraverseDependenciesForModules m gs) = map mod_key gs"
  by (simp add: setTraverseDependenciesForModules_def mod_key_def comp_def
      del: traverseDependencies.simps)

lemma sound_setTraverse:
  "sound_loader gir st \<Longrightarrow>
   sound_loader gir (st\<lparr>girModules := setTraverseDependenciesForModules (modDependencyMap st) (girModules st)\<rparr>)"
  by (auto simp: sound_loader_def setTraverseDependenciesForModules_def
      simp del: traverseDependencies.simps)

lemma grows_setTraverse:
  "grows st (st\<lparr>girModules := setTraverseDependenciesForModules m (girModules st)\<rparr>)"
  by (simp add: grows_def)

lemma traverse_direct:
  "(name, b) \<in> depends_on m \<Longrightarrow> b \<in> set (traverseDependencies m name [])"
  using traverse_complete(1) [of m "[]" name] by (simp del: traverseDependencies.simps)

lemma trans_ok_setTraverse:
  assumes "sound_loader gir st"
  shows "trans_ok (st\<lparr>girModules := setTraverseDependenciesForModules (modDependencyMap st) (girModules st)\<rparr>)"
  unfolding trans_ok_def
proof (intro ballI impI)
  fix h d
  assume h: "h \<in> set (girModules (st\<lparr>girModules :=
                setTraverseDependenciesForModules (modDependencyMap st) (girModules st)\<rparr>))"
    and d: "d \<in> set (dependencies (module h))" and n: "d \<notin> set inherited_keys"
  from h obtain g where g: "g \<in> set (girModules st)"
    and hg: "h = g\<lparr>module := (module g)\<lparr>transitiveDependencies :=
                 object_keys (traverseDependencies (modDependencyMap st) (packageName g) [])\<rparr>\<rparr>"
    by (auto simp: setTraverseDependenciesForModules_def simp del: traverseDependencies.simps)
  from assms g obtain deps where m: "map_of (modDependencyMap st) (packageName g) = Some deps"
    and dd: "map packageName deps = dependencies (module g)"
    by (auto simp: sound_loader_def)
  from d hg have "d \<in> set (dependencies (module g))" by (simp del: traverseDependencies.simps)
  with dd have "d \<in> packageName ` set deps" by (metis set_map)
  with m n have "(packageName g, d) \<in> depends_on (modDependencyMap st)"
    by (auto simp: depends_on_def)
  then have "d \<in> set (traverseDependencies (modDependencyMap st) (packageName g) [])"
    by (rule traverse_direct)
  with hg show "d \<in> set (transitiveDependencies (module h))"
    by (simp del: traverseDependencies.simps)
qed

lemma loadGirModules_closed:
  "loadGirModules fuel sp gir toRead ign rb st = Some (Inr st') \<Longrightarrow> consistent_docs gir \<Longrightarrow>
     sound_loader gir st \<Longrightarrow> trans_ok st \<Longrightarrow>
     sound_loader gir st' \<and> trans_ok st' \<and> grows st st'
     \<and> (\<forall>x\<in>set toRead. handled st' (shifted_name x))
     \<and> (girModules st' = girModules st \<or> closed_from 0 st')"
  "loadGirModules_for fuel sp gir ign i st = Some (Inr st') \<Longrightarrow> consistent_docs gir \<Longrightarrow>
     sound_loader gir st \<Longrightarrow> trans_ok st \<Longrightarrow>
     sound_loader gir st' \<and> trans_ok st' \<and> grows st st' \<and> closed_from i st'"
proof (induction fuel sp gir toRead ign rb st and fuel sp gir ign i st arbitrary: st' and st'
    rule: loadGirModules_loadGirModules_for.induct)
  case (1 sp gir toRead ign rb st)
  then show ?case by simp
next
  case (2 fuel sp gir toRead ign rb st)
  from loadGirModules_while_records [of sp gir rb toRead st False]
  obtain st1 found where w: "loadGirModules_while sp gir rb toRead st False = Inr (st1, found)"
    by blast
  from while_sound [OF "2.prems"(2) "2.prems"(3) w]
  have ok1: "sound_loader gir st1" and g1: "grows st st1"
    and h1: "\<forall>x\<in>set toRead. handled st1 (shifted_name x)"
    and same: "\<not> found \<longrightarrow> girModules st1 = girModules st" by auto
  show ?case
  proof (cases found)
    case False
    with w "2.prems"(1) have e: "st' = st1" by simp
    from False same "2.prems"(4) have "trans_ok st1" by (simp add: trans_ok_def)
    with e ok1 g1 h1 same False show ?thesis by simp
  next
    case True
    let ?st2 = "st1\<lparr>girModules := setTraverseDependenciesForModules (modDependencyMap st1) (girModules st1)\<rparr>"
    from w True "2.prems"(1)
    have l: "loadGirModules_for fuel sp gir ign 0 ?st2 = Some (Inr st')" by simp
    have ok2: "sound_loader gir ?st2" using ok1 by (rule sound_setTraverse)
    have t2: "trans_ok ?st2" using ok1 by (rule trans_ok_setTraverse)
    have g2: "grows st1 ?st2" by (rule grows_setTraverse)
    from "2.IH" [OF w refl _ l "2.prems"(2) ok2 t2] True
    have r: "sound_loader gir st'" "trans_ok st'" "grows ?st2 st'" "closed_from 0 st'" by auto
    from g1 g2 r(3) have g: "grows st1 st'" "grows st st'" by (blast intro: grows_trans)+
    from h1 g(1) have "\<forall>x\<in>set toRead. handled st' (shifted_name x)"
      by (blast intro: handled_mono)
    with r g show ?thesis by simp
  qed
next
  case (3 sp gir ign i st)
  then show ?case by simp
next
  case (4 fuel sp gir ign i st)
  show ?case
  proof (cases "i < length (girModules st)")
    case False
    with "4.prems" show ?thesis by (auto simp: grows_refl closed_from_def)
  next
    case True
    let ?g = "girModules st ! i"
    let ?td = "transitiveDependencies (module ?g)"
    from True have mem: "?g \<in> set (girModules st)" by simp
    show ?thesis
    proof (cases "0 < length ?td")
      case False
      with True "4.prems"(1) have l: "loadGirModules_for fuel sp gir ign (Suc i) st = Some (Inr st')"
        by (simp add: Let_def)
      from "4.IH"(3) [OF True refl refl _ l "4.prems"(2,3,4)] False
      have r: "sound_loader gir st'" "trans_ok st'" "grows st st'" "closed_from (Suc i) st'" by auto
      from False "4.prems"(4) mem have "deps_handled st (mod_key ?g)"
        by (auto simp: trans_ok_def deps_handled_def mod_key_def)
      from closed_from_step [OF r(3) True this r(4)] r show ?thesis by simp
    next
      case nonempty: True
      let ?st1 = "st\<lparr>warned := warned st @
                     map (\<lambda>t. WARN_LOAD_IGNORED_DEPENDENCY t (packageName ?g))
                       (filter (\<lambda>t. t \<in> set ign) ?td)\<rparr>"
      have ok1: "sound_loader gir ?st1" using "4.prems"(3) by (simp add: sound_loader_def)
      have t1: "trans_ok ?st1" using "4.prems"(4) by (simp add: trans_ok_def)
      have g1: "grows st ?st1" by (simp add: grows_def)
      from True nonempty "4.prems"(1)
      obtain r2 where c2: "loadGirModules fuel sp gir ?td ign DEPENDENCE ?st1 = Some r2"
        by (auto simp: Let_def split: option.splits)
      from loadGirModules_records(1) [OF c2] obtain st2 where r2: "r2 = Inr st2" by blast
      from "4.IH"(1) [OF True refl refl nonempty refl c2 [unfolded r2] "4.prems"(2) ok1 t1]
      have ok2: "sound_loader gir st2" and t2: "trans_ok st2" and g2: "grows ?st1 st2"
        and h2: "\<forall>x\<in>set ?td. handled st2 (shifted_name x)" by auto
      from g1 g2 have g12: "grows st st2" by (rule grows_trans)
      from grows_nth [OF g12 True]
      have i2: "i < length (girModules st2)"
        and k2: "mod_key (girModules st2 ! i) = mod_key ?g" by auto
      from "4.prems"(4) mem h2 have "deps_handled st2 (mod_key ?g)"
        by (auto simp: trans_ok_def deps_handled_def mod_key_def)
      with k2 have dh: "deps_handled st2 (mod_key (girModules st2 ! i))" by simp
      from True nonempty "4.prems"(1) c2 r2
      have l: "loadGirModules_for fuel sp gir ign (Suc i) st2 = Some (Inr st')"
        by (simp add: Let_def)
      from "4.IH"(2) [OF True refl refl nonempty refl c2 [unfolded r2] refl l "4.prems"(2) ok2 t2]
      have r: "sound_loader gir st'" "trans_ok st'" "grows st2 st'" "closed_from (Suc i) st'" by auto
      from g12 r(3) have "grows st st'" by (rule grows_trans)
      with closed_from_step [OF r(3) i2 dh r(4)] r show ?thesis by simp
    qed
  qed
qed

lemma required_handled:
  assumes "plain_dependencies gir" and "sound_loader gir st'" and "closed_from 0 st'"
    and "\<forall>x\<in>set toRead. handled st' (shifted_name x)"
    and "n \<in> required gir toRead"
  shows "handled st' n"
proof -
  from assms(5) obtain x where x: "x \<in> set toRead" and r: "(shifted_name x, n) \<in> (requires gir)\<^sup>*"
    by (auto simp: required_def)
  from r show ?thesis
  proof (induction rule: rtrancl_induct)
    case base
    with assms(4) x show ?case by simp
  next
    case (step a b)
    from step.hyps(2) obtain g d where g: "gir a = Some g" and d: "d \<in> set (dependencies g)"
      and b: "b = shifted_name d" by (auto simp: requires_def)
    from assms(2) g have "a \<notin> set (failedGirModules st')" by (auto simp: sound_loader_def)
    with step.IH obtain h where h: "h \<in> set (girModules st')" and a: "packageName h = a"
      by (auto simp: handled_def)
    with assms(2) g have "dependencies (module h) = dependencies g"
      by (auto simp: sound_loader_def)
    with d have dh: "d \<in> set (snd (mod_key h))" by (simp add: mod_key_def)
    from assms(1) g d have "d \<notin> set inherited_keys" by (auto simp: plain_dependencies_def)
    moreover from h assms(3) have "deps_handled st' (mod_key h)"
      by (simp add: closed_from_def)
    ultimately show ?case using dh b by (auto simp: deps_handled_def)
  qed
qed

lemma loadGirModules_required:
  assumes run: "loadGirModules fuel sp gir toRead ign rb st = Some (Inr st')"
    and c: "consistent_docs gir" and p: "plain_dependencies gir"
    and e: "girModules st = []" "failedGirModules st = []"
    and n: "n \<in> required gir toRead"
  shows "(gir n = None \<longrightarrow> n \<in> set (failedGirModules st'))
       \<and> (gir n \<noteq> None \<longrightarrow> n \<in> packageName ` set (girModules st'))"
proof -
  have s: "sound_loader gir st" and t: "trans_ok st"
    using e by (simp_all add: sound_loader_def trans_ok_def)
  from loadGirModules_closed(1) [OF run c s t]
  have s': "sound_loader gir st'" and h: "\<forall>x\<in>set toRead. handled st' (shifted_name x)"
    and cl: "girModules st' = girModules st \<or> closed_from 0 st'" by auto
  from cl e have "closed_from 0 st'" by (auto simp: closed_from_def)
  from required_handled [OF p s' this h n] have hn: "handled st' n" .
  show ?thesis
  proof (intro conjI impI)
    assume "gir n = None"
    with s' have "n \<notin> packageName ` set (girModules st')" by (auto simp: sound_loader_def)
    with hn show "n \<in> set (failedGirModules st')" by (simp add: handled_def)
  next
    assume "gir n \<noteq> None"
    with s' have "n \<notin> set (failedGirModules st')" by (auto simp: sound_loader_def)
    with hn show "n \<in> packageName ` set (girModules st')" by (simp add: handled_def)
  qed
qed

text \<open>
  Claim C6. When no document is found for a requested or transitively required name that
  is not loaded, \<open>loadGirModules\<close> records the name in the failed set; the missing-file
  warning is emitted when the name enters the failed set and never again, also across
  the recursive passes, which share the set; and nothing is thrown: the \<open>while\<close> loop
  always completes, a run never ends in an exception, and for consistent documents
  enough fuel lets the whole run return.

  The first four parts speak of one call and the names it is given. The last two speak of
  a whole run, started as the source starts it, with no module loaded and no name failed
  (whatever the dependency map holds): when it returns, every name in
  \<open>required gir girModulesToRead\<close>, however long the chain of documents that leads to it,
  is in the failed set if it has no document and is loaded if it has one, and only names
  without a document are in the failed set; and for consistent documents the run does
  return.
\<close>

theorem missing_document_recorded_once:
  "(\<exists>st' found. loadGirModules_while sp gir rb toRead st f = Inr (st', found)
       \<and> records_new st st' \<and> missing_recorded gir toRead st')
   \<and> (loadGirModules fuel sp gir toRead ign rb st = Some r \<longrightarrow>
        (\<exists>st'. r = Inr st' \<and> records_new st st' \<and> missing_recorded gir toRead st'))
   \<and> (loadGirModules fuel sp gir toRead ign rb new_loader = Some r' \<longrightarrow>
        (\<exists>st'. r' = Inr st' \<and> missing_names (warned st') = failedGirModules st'
               \<and> distinct (failedGirModules st')))
   \<and> (consistent_docs gir \<and> loaded_ok gir st \<longrightarrow>
        (\<exists>enough st'. loadGirModules enough sp gir toRead ign rb st = Some (Inr st')
               \<and> records_new st st' \<and> missing_recorded gir toRead st'))
   \<and> (consistent_docs gir \<and> plain_dependencies gir
       \<and> girModules st = [] \<and> failedGirModules st = []
       \<and> loadGirModules fuel sp gir toRead ign rb st = Some r \<longrightarrow>
        (\<exists>st'. r = Inr st'
           \<and> (\<forall>n\<in>required gir toRead.
                 (gir n = None \<longrightarrow> n \<in> set (failedGirModules st'))
                 \<and> (gir n \<noteq> None \<longrightarrow> n \<in> packageName ` set (girModules st')))
           \<and> (\<forall>n\<in>set (failedGirModules st'). gir n = None)))
   \<and> (consistent_docs gir \<and> plain_dependencies gir
       \<and> girModules st = [] \<and> failedGirModules st = [] \<longrightarrow>
        (\<exists>enough st'. loadGirModules enough sp gir toRead ign rb st = Some (Inr st')
           \<and> records_new st st'
           \<and> (\<forall>n\<in>required gir toRead. gir n = None \<longrightarrow> n \<in> set (failedGirModules st'))))"
proof (intro conjI impI)
  show "\<exists>st' found. loadGirModules_while sp gir rb toRead st f = Inr (st', found)
       \<and> records_new st st' \<and> missing_recorded gir toRead st'"
    by (rule loadGirModules_while_records)
next
  assume "loadGirModules fuel sp gir toRead ign rb st = Some r"
  then show "\<exists>st'. r = Inr st' \<and> records_new st st' \<and> missing_recorded gir toRead st'"
    by (rule loadGirModules_missing_recorded)
next
  assume "loadGirModules fuel sp gir toRead ign rb new_loader = Some r'"
  from loadGirModules_missing_recorded [OF this]
  obtain st' where s: "r' = Inr st'" and r: "records_new new_loader st'" by blast
  from r obtain new where "failedGirModules st' = failedGirModules new_loader @ new" "distinct new"
    "missing_names (warned st') = missing_names (warned new_loader) @ new"
    by (rule records_newE)
  then have "missing_names (warned st') = failedGirModules st' \<and> distinct (failedGirModules st')"
    by (simp add: new_loader_def)
  with s show "\<exists>st'. r' = Inr st' \<and> missing_names (warned st') = failedGirModules st'
               \<and> distinct (failedGirModules st')" by blast
next
  assume h: "consistent_docs gir \<and> loaded_ok gir st"
  then have "\<exists>enough st'. loadGirModules enough sp gir toRead ign rb st = Some (Inr st')"
    using loadGirModules_converges_aux [of gir st "card (dom gir) - length (girModules st)"]
    by simp
  then obtain enough st' where e: "loadGirModules enough sp gir toRead ign rb st = Some (Inr st')"
    by blast
  from loadGirModules_missing_recorded [OF e]
  have "records_new st st' \<and> missing_recorded gir toRead st'" by simp
  with e show "\<exists>enough st'. loadGirModules enough sp gir toRead ign rb st = Some (Inr st')
               \<and> records_new st st' \<and> missing_recorded gir toRead st'" by blast
next
  assume h: "consistent_docs gir \<and> plain_dependencies gir
       \<and> girModules st = [] \<and> failedGirModules st = []
       \<and> loadGirModules fuel sp gir toRead ign rb st = Some r"
  then have run: "loadGirModules fuel sp gir toRead ign rb st = Some r" by simp
  from loadGirModules_missing_recorded [OF run] obtain st' where r: "r = Inr st'" by blast
  have s: "sound_loader gir st" and t: "trans_ok st"
    using h by (simp_all add: sound_loader_def trans_ok_def)
  from loadGirModules_closed(1) [OF run [unfolded r] _ s t] h
  have "sound_loader gir st'" by simp
  then have "\<forall>n\<in>set (failedGirModules st'). gir n = None" by (simp add: sound_loader_def)
  moreover have "\<forall>n\<in>required gir toRead.
                 (gir n = None \<longrightarrow> n \<in> set (failedGirModules st'))
                 \<and> (gir n \<noteq> None \<longrightarrow> n \<in> packageName ` set (girModules st'))"
    using loadGirModules_required [OF run [unfolded r]] h by blast
  ultimately show "\<exists>st'. r = Inr st'
           \<and> (\<forall>n\<in>required gir toRead.
                 (gir n = None \<longrightarrow> n \<in> set (failedGirModules st'))
                 \<and> (gir n \<noteq> None \<longrightarrow> n \<in> packageName ` set (girModules st')))
           \<and> (\<forall>n\<in>set (failedGirModules st'). gir n = None)"
    using r by blast
next
  assume h: "consistent_docs gir \<and> plain_dependencies gir
       \<and> girModules st = [] \<and> failedGirModules st = []"
  then have "loaded_ok gir st" by (simp add: loaded_ok_def)
  with h have "\<exists>enough st'. loadGirModules enough sp gir toRead ign rb st = Some (Inr st')"
    using loadGirModules_converges_aux [of gir st "card (dom gir) - length (girModules st)"]
    by simp
  then obtain enough st' where e: "loadGirModules enough sp gir toRead ign rb st = Some (Inr st')"
    by blast
  from loadGirModules_missing_recorded [OF e] have "records_new st st'" by simp
  moreover have "\<forall>n\<in>required gir toRead. gir n = None \<longrightarrow> n \<in> set (failedGirModules st')"
    using loadGirModules_required [OF e] h by blast
  ultimately show "\<exists>enough st'. loadGirModules enough sp gir toRead ign rb st = Some (Inr st')
           \<and> records_new st st'
           \<and> (\<forall>n\<in>required gir toRead. gir n = None \<longrightarrow> n \<in> set (failedGirModules st'))"
    using e by blast
qed

text \<open>
  C6 on three documents: \<open>Gtk-3.0\<close> and \<open>Gdk-3.0\<close> both depend on the missing \<open>Foo-1.0\<close>,
  \<open>Cairo-1.0\<close> depends on the missing \<open>Baz-1.0\<close>, and the missing \<open>Bar-1.0\<close> is requested
  as well. \<open>Baz-1.0\<close> is reached only through the document of \<open>Cairo-1.0\<close>, in a pass
  nested in the one for \<open>Gtk-3.0\<close>. Each missing name is recorded and warned about once.
\<close>

theorem missing_document_recorded_once_witness:
  "\<exists>enough st'. loadGirModules enough splitModuleName_spec
     (map_of
       [(''Gtk-3.0'', \<lparr>packageName = ''Gtk-3.0'', dependencies = [''Gdk-3.0'', ''Foo-1.0''],
                        transitiveDependencies = []\<rparr>),
        (''Gdk-3.0'', \<lparr>packageName = ''Gdk-3.0'', dependencies = [''Foo-1.0''],
                        transitiveDependencies = []\<rparr>),
        (''Cairo-1.0'', \<lparr>packageName = ''Cairo-1.0'', dependencies = [''Baz-1.0''],
                        transitiveDependencies = []\<rparr>)])
     [''Gtk-3.0'', ''Cairo-1.0'', ''Bar-1.0''] [] BY_HAND new_loader = Some (Inr st')
     \<and> ''Baz-1.0'' \<in> set (failedGirModules st')
     \<and> failedGirModules st' = [''Bar-1.0'', ''Foo-1.0'', ''Baz-1.0'']
     \<and> missing_names (warned st') = [''Bar-1.0'', ''Foo-1.0'', ''Baz-1.0'']
     \<and> map packageName (girModules st') = [''Gtk-3.0'', ''Cairo-1.0'', ''Gdk-3.0'']"
proof -
  let ?docs = "map_of
       [(''Gtk-3.0'', \<lparr>packageName = ''Gtk-3.0'', dependencies = [''Gdk-3.0'', ''Foo-1.0''],
                        transitiveDependencies = []\<rparr>),
        (''Gdk-3.0'', \<lparr>packageName = ''Gdk-3.0'', dependencies = [''Foo-1.0''],
                        transitiveDependencies = []\<rparr>),
        (''Cairo-1.0'', \<lparr>packageName = ''Cairo-1.0'', dependencies = [''Baz-1.0''],
                        transitiveDependencies = []\<rparr>)]"
  let ?req = "[''Gtk-3.0'', ''Cairo-1.0'', ''Bar-1.0'']"
  let ?run = "\<lambda>fuel. loadGirModules fuel splitModuleName_spec ?docs ?req [] BY_HAND new_loader"
  note inst = missing_document_recorded_once
    [where sp = splitModuleName_spec and gir = ?docs and rb = BY_HAND and toRead = ?req
       and st = new_loader and ign = "[]"]
  have "finite (dom ?docs)" by (rule finite_dom_map_of)
  moreover have "\<forall>n g. ?docs n = Some g \<longrightarrow> packageName g = n"
    by (auto split: if_splits)
  ultimately have c: "consistent_docs ?docs" by (simp add: consistent_docs_def)
  have p: "plain_dependencies ?docs"
    by (auto simp: plain_dependencies_def inherited_keys_def split: if_splits)
  have e: "girModules new_loader = [] \<and> failedGirModules new_loader = []"
    by (simp add: new_loader_def)
  from inst [THEN conjunct2, THEN conjunct2, THEN conjunct2, THEN conjunct2, THEN conjunct2] c p e
  obtain enough st' where run: "?run enough = Some (Inr st')"
    and rec: "\<forall>n\<in>required ?docs ?req. ?docs n = None \<longrightarrow> n \<in> set (failedGirModules st')"
    by blast
  have "(''Cairo-1.0'', ''Baz-1.0'') \<in> requires ?docs"
    by (simp add: requires_def shifted_name_def)
  then have "''Baz-1.0'' \<in> required ?docs ?req"
    unfolding required_def by (intro ImageI [of "''Cairo-1.0''"]) (auto simp: shifted_name_def)
  with rec have baz: "''Baz-1.0'' \<in> set (failedGirModules st')" by simp
  from inst [THEN conjunct2, THEN conjunct2, THEN conjunct1, of enough "Inr st'"] run
  have once: "missing_names (warned st') = failedGirModules st'" by blast
  have "(case ?run 9 of
           Some (Inr st') \<Rightarrow> failedGirModules st' = [''Bar-1.0'', ''Foo-1.0'', ''Baz-1.0'']
              \<and> map packageName (girModules st') = [''Gtk-3.0'', ''Cairo-1.0'', ''Gdk-3.0'']
         | _ \<Rightarrow> False)"
    by code_simp
  then obtain st9 where run9: "?run 9 = Some (Inr st9)"
    and failed: "failedGirModules st9 = [''Bar-1.0'', ''Foo-1.0'', ''Baz-1.0'']"
    and loaded: "map packageName (girModules st9) = [''Gtk-3.0'', ''Cairo-1.0'', ''Gdk-3.0'']"
    by (auto split: option.splits sum.splits)
  have "?run (max enough 9) = Some (Inr st')" using fuel_mono(1) [OF run] by simp
  moreover have "?run (max enough 9) = Some (Inr st9)" using fuel_mono(1) [OF run9] by simp
  ultimately have "st' = st9" by simp
  with run once failed loaded baz
  have "?run enough = Some (Inr st9)
     \<and> ''Baz-1.0'' \<in> set (failedGirModules st9)
     \<and> failedGirModules st9 = [''Bar-1.0'', ''Foo-1.0'', ''Baz-1.0'']
     \<and> missing_names (warned st9) = [''Bar-1.0'', ''Foo-1.0'', ''Baz-1.0'']
     \<and> map packageName (girModules st9) = [''Gtk-3.0'', ''Cairo-1.0'', ''Gdk-3.0'']"
    by simp
  then show ?thesis by (intro exI [of _ enough] exI [of _ st9])
qed

text \<open>
  Convergence of the loader: for consistent documents a run from a fresh loader returns,
  whatever is requested.
\<close>

theorem loadGirModules_converges:
  "consistent_docs gir \<longrightarrow>
     (\<exists>enough st'. loadGirModules enough sp gir girModulesToRead ign BY_HAND new_loader = Some (Inr st'))"
proof
  assume c: "consistent_docs gir"
  have "loaded_ok gir new_loader" by (simp add: loaded_ok_def new_loader_def)
  with c show "\<exists>enough st'. loadGirModules enough sp gir girModulesToRead ign BY_HAND new_loader = Some (Inr st')"
    using loadGirModules_converges_aux [of gir new_loader "card (dom gir)"] by simp
qed

text \<open>Convergence on two documents that depend on each other.\<close>

theorem loadGirModules_converges_witness:
  "\<exists>enough st'. loadGirModules enough splitModuleName_spec
     (map_of
       [(''Gtk-3.0'', \<lparr>packageName = ''Gtk-3.0'', dependencies = [''Gdk-3.0'', ''Foo-1.0''],
                        transitiveDependencies = []\<rparr>),
        (''Gdk-3.0'', \<lparr>packageName = ''Gdk-3.0'', dependencies = [''Gtk-3.0''],
                        transitiveDependencies = []\<rparr>)])
     [''Gtk-3.0'', ''Bar-1.0''] [] BY_HAND new_loader = Some (Inr st')"
proof -
  let ?docs = "map_of
       [(''Gtk-3.0'', \<lparr>packageName = ''Gtk-3.0'', dependencies = [''Gdk-3.0'', ''Foo-1.0''],
                        transitiveDependencies = []\<rparr>),
        (''Gdk-3.0'', \<lparr>packageName = ''Gdk-3.0'', dependencies = [''Gtk-3.0''],
                        transitiveDependencies = []\<rparr>)]"
  have "finite (dom ?docs)" by (rule finite_dom_map_of)
  moreover have "\<forall>n g. ?docs n = Some g \<longrightarrow> packageName g = n"
    by (auto split: if_splits)
  ultimately have "consistent_docs ?docs" by (simp add: consistent_docs_def)
  with loadGirModules_converges [of ?docs splitModuleName_spec "[''Gtk-3.0'', ''Bar-1.0'']" "[]"]
  show ?thesis by blast
qed

end
